theory Spec2Isabelle
  imports
    Main
    "HOL-Library.Sublist"
    "HOL-Library.Char_ord"
    "HOL-Library.List_Lexorder"
    "HOL-Library.Product_Lexorder"
    "HOL-Library.Multiset"
begin

section \<open>Text\<close>

text \<open>
  A Python \<^verbatim>\<open>str\<close> is modelled as a \<^typ>\<open>string\<close>: one \<^typ>\<open>char\<close> per code point, so the
  model covers text whose code points are below 256. Positions, slices and comparisons
  are those of Python on such text; the size in bytes of its UTF-8 encoding is
  \<open>utf8_len\<close> (one byte below 128, two bytes from 128 to 255).
\<close>

definition utf8_len :: "string \<Rightarrow> nat" where
  "utf8_len s = sum_list (map (\<lambda>c. if (of_char c :: nat) < 128 then 1 else 2) s)"

text \<open>\<^verbatim>\<open>s.find(sub)\<close> on a whole string: the lowest index where \<open>sub\<close> starts.\<close>

fun find0 :: "string \<Rightarrow> string \<Rightarrow> nat option" where
  "find0 sub [] = (if sub = [] then Some 0 else None)"
| "find0 sub (c # cs) =
     (if prefix sub (c # cs) then Some 0 else map_option Suc (find0 sub cs))"

text \<open>\<^verbatim>\<open>s.rfind(sub)\<close> on a whole string: the highest index where \<open>sub\<close> starts.\<close>

fun rfind0 :: "string \<Rightarrow> string \<Rightarrow> nat option" where
  "rfind0 sub [] = (if sub = [] then Some 0 else None)"
| "rfind0 sub (c # cs) =
     (case rfind0 sub cs of
        Some i \<Rightarrow> Some (Suc i)
      | None \<Rightarrow> if prefix sub (c # cs) then Some 0 else None)"

text \<open>
  \<^verbatim>\<open>s.find(sub, start)\<close> and \<^verbatim>\<open>s.rfind(sub, start, end)\<close> for non-negative bounds: the
  match lies within \<^verbatim>\<open>s[start:end]\<close>; Python's \<^verbatim>\<open>-1\<close> is \<open>None\<close>.
\<close>

definition str_find :: "string \<Rightarrow> string \<Rightarrow> nat \<Rightarrow> nat option" where
  "str_find s sub start =
     (if length s < start then None
      else map_option (\<lambda>i. start + i) (find0 sub (drop start s)))"

definition str_rfind :: "string \<Rightarrow> string \<Rightarrow> nat \<Rightarrow> nat \<Rightarrow> nat option" where
  "str_rfind s sub start end =
     (let e = min end (length s) in
      if e < start then None
      else map_option (\<lambda>i. start + i) (rfind0 sub (take (e - start) (drop start s))))"

text \<open>\<^verbatim>\<open>sub in s\<close>.\<close>

definition str_contains :: "string \<Rightarrow> string \<Rightarrow> bool" where
  "str_contains sub s = sublist sub s"

text \<open>
  A text file, which is valid UTF-8 here, is held as the text its bytes decode to, with
  its line endings as they are stored, so the size of the file in bytes, \<^verbatim>\<open>stat().st_size\<close>, is \<open>utf8_len\<close> of what
  is held. \<^verbatim>\<open>Path.read_text\<close> opens the file with universal newlines: a carriage return
  followed by a line feed, and a carriage return alone, are read as one line feed.
  \<^verbatim>\<open>Path.write_text\<close> on POSIX stores the text as it is given.
\<close>

fun read_text :: "string \<Rightarrow> string" where
  "read_text [] = []"
| "read_text [c] = (if c = CHR 0x0D then [CHR 0x0A] else [c])"
| "read_text (c # d # cs) =
     (if c = CHR 0x0D \<and> d = CHR 0x0A then CHR 0x0A # read_text cs
      else if c = CHR 0x0D then CHR 0x0A # read_text (d # cs)
      else c # read_text (d # cs))"

section \<open>Conversion results and the file system\<close>

text \<open>
  The result dictionary of \<^verbatim>\<open>convert_one\<close>. The keys \<^verbatim>\<open>body_html\<close>, \<^verbatim>\<open>image_files\<close>,
  \<^verbatim>\<open>num_images\<close> and \<^verbatim>\<open>_tmpdir\<close> are set on some paths only: \<open>None\<close> is an absent key.
  An entry of \<^verbatim>\<open>image_files\<close> pairs the path of a file in the temporary directory with
  its new name.
\<close>

record conv_result =
  theme :: string
  source :: string
  reader :: string
  reader_slug :: string
  images :: "string list"
  error :: "string option"
  skipped :: bool
  body_html :: "string option"
  image_files :: "(string \<times> string) list option"
  num_images :: "nat option"
  tmpdir :: "string option"

datatype py_error =
    FileNotFoundError string
  | KeyError string
  | PermissionError string
  | ZeroDivisionError
  | ValueError string

text \<open>The per-theme counters of the patch phase and the report written at the end.\<close>

record theme_stats =
  ts_updated :: nat
  ts_images :: nat
  ts_before :: nat
  ts_after :: nat

record file_entry =
  fe_theme :: string
  fe_source :: string
  fe_reader :: string
  fe_num_images :: nat

record report =
  timestamp :: string
  rp_dry_run :: bool
  themes :: "(string \<times> theme_stats) list"
  totals :: theme_stats
  rp_errors :: nat
  skipped_no_images :: nat
  files :: "file_entry list"

text \<open>
  The file system, by path. Reader pages, the image directories below
  \<^verbatim>\<open><theme>/read/img\<close>, the temporary directories of \<^verbatim>\<open>tempfile.mkdtemp\<close> and the report
  \<^verbatim>\<open>scripts/image_report.json\<close> are disjoint parts of it and are kept in separate
  fields. A reader page is held as the content of its file, which \<open>read_text\<close> reads; the
  report is held as the record \<^verbatim>\<open>json.dumps\<close> serialises. Directories are implicit. \<open>denied\<close> is the set of
  image destinations the operating system refuses to write. \<open>warnings\<close> collects the
  lines \<^verbatim>\<open>update_reader_page\<close> prints.
\<close>

record world =
  pages :: "string \<rightharpoonup> string"
  assets :: "string \<rightharpoonup> string"
  tmp :: "string \<rightharpoonup> string"
  report_file :: "report option"
  denied :: "string set"
  warnings :: "string list"

section \<open>Page Patcher: \<^verbatim>\<open>update_reader_page\<close>\<close>

definition open_tag :: string where
  \<open>open_tag = ''<div class="reader-content">''\<close>

definition file_link_btn :: string where
  \<open>file_link_btn = ''<a class="file-link-btn"''\<close>

definition close_div :: string where
  \<open>close_div = ''</div>''\<close>

definition lo_marker :: string where
  \<open>lo_marker = ''<!-- lo-images -->''\<close>

definition nl :: string where
  "nl = [CHR 0x0A]"

text \<open>
  Lines 321 to 343: where the container's content starts and where the chosen closing
  tag starts, or which of the two searches failed. \<open>close_before_link\<close> is the value
  of \<^verbatim>\<open>close_idx\<close> at line 337, before the fallback of line 339.
\<close>

datatype region = NoOpenTag | NoCloseTag | Region nat nat

definition close_before_link :: "string \<Rightarrow> nat \<Rightarrow> nat option" where
  "close_before_link page_content content_start =
     (case str_find page_content file_link_btn content_start of
        Some file_link_idx \<Rightarrow> str_rfind page_content close_div content_start file_link_idx
      | None \<Rightarrow> None)"

definition find_close_idx :: "string \<Rightarrow> nat \<Rightarrow> nat option" where
  "find_close_idx page_content content_start =
     (case close_before_link page_content content_start of
        None \<Rightarrow> str_find page_content close_div content_start
      | Some close_idx \<Rightarrow> Some close_idx)"

definition locate_region :: "string \<Rightarrow> region" where
  "locate_region page_content =
     (case str_find page_content open_tag 0 of
        None \<Rightarrow> NoOpenTag
      | Some open_idx \<Rightarrow>
          (let content_start = open_idx + length open_tag in
           case find_close_idx page_content content_start of
             None \<Rightarrow> NoCloseTag
           | Some close_idx \<Rightarrow> Region content_start close_idx))"

text \<open>Lines 345 to 349.\<close>

definition new_content :: "string \<Rightarrow> string \<Rightarrow> nat \<Rightarrow> nat \<Rightarrow> string" where
  "new_content page_content new_body content_start close_idx =
     take content_start page_content
     @ nl @ lo_marker @ nl @ new_body @ nl
     @ drop close_idx page_content"

text \<open>
  \<^verbatim>\<open>theme_dir / 'read' / 'img' / reader_slug / new_name\<close> with
  \<^verbatim>\<open>theme_dir = reader_path.parent.parent\<close>, for a reader path
  \<^verbatim>\<open><theme_dir>/<dir>/<name>\<close>.
\<close>

definition path_parent :: "string \<Rightarrow> string" where
  "path_parent p =
     (case rfind0 ''/'' p of
        None \<Rightarrow> ''.''
      | Some i \<Rightarrow> if i = 0 then ''/'' else take i p)"

definition img_path :: "string \<Rightarrow> string \<Rightarrow> string \<Rightarrow> string" where
  "img_path reader_path slug new_name =
     path_parent (path_parent reader_path) @ ''/read/img/'' @ slug @ ''/'' @ new_name"

text \<open>
  \<^verbatim>\<open>shutil.copy2\<close> of one image, and the loop of lines 355 to 359: it stops at the first
  copy that raises, with the earlier copies done.
\<close>

definition copy2 :: "string \<Rightarrow> string \<Rightarrow> world \<Rightarrow> world \<times> (py_error + nat)" where
  "copy2 src dst w =
     (case tmp w src of
        None \<Rightarrow> (w, Inl (FileNotFoundError src))
      | Some data \<Rightarrow>
          if dst \<in> denied w then (w, Inl (PermissionError dst))
          else (w\<lparr>assets := (assets w)(dst \<mapsto> data)\<rparr>, Inr (utf8_len data)))"

fun copy_images ::
  "string \<Rightarrow> string \<Rightarrow> (string \<times> string) list \<Rightarrow> nat \<Rightarrow> world \<Rightarrow> world \<times> (py_error + nat)" where
  "copy_images reader_path slug [] total_img_size w = (w, Inr total_img_size)"
| "copy_images reader_path slug ((src_file, new_name) # rest) total_img_size w =
     (case copy2 src_file (img_path reader_path slug new_name) w of
        (w', Inl e) \<Rightarrow> (w', Inl e)
      | (w', Inr n) \<Rightarrow> copy_images reader_path slug rest (total_img_size + n) w')"

text \<open>The sum of line 312: \<^verbatim>\<open>f.stat()\<close> raises for a file that is not there.\<close>

fun stat_sizes :: "world \<Rightarrow> string list \<Rightarrow> py_error + nat" where
  "stat_sizes w [] = Inr 0"
| "stat_sizes w (f # fs) =
     (case tmp w f of
        None \<Rightarrow> Inl (FileNotFoundError f)
      | Some data \<Rightarrow>
          (case stat_sizes w fs of Inl e \<Rightarrow> Inl e | Inr n \<Rightarrow> Inr (utf8_len data + n)))"

definition no_open_warning :: string where
  "no_open_warning = ''  WARNING: Could not find reader-content div in ''"

definition no_close_warning :: string where
  "no_close_warning = ''  WARNING: Could not find closing </div> in ''"

definition warn :: "string \<Rightarrow> world \<Rightarrow> world" where
  "warn line w = w\<lparr>warnings := warnings w @ [line]\<rparr>"

text \<open>
  Lines 301 to 365. The size before is the size of the page's file (line 307); the text
  that is searched and spliced is the file as \<^verbatim>\<open>read_text\<close> returns it (line 316); the new
  content replaces the whole file (line 362), and its size is counted after the images.
\<close>

definition update_reader_page ::
  "conv_result \<Rightarrow> bool \<Rightarrow> world \<Rightarrow> world \<times> (py_error + nat \<times> nat)" where
  "update_reader_page result dry_run w =
     (case pages w (reader result) of
        None \<Rightarrow> (w, Inl (FileNotFoundError (reader result)))
      | Some file_content \<Rightarrow>
          (let before_size = utf8_len file_content in
           if dry_run then
             (let body_size = utf8_len (case body_html result of None \<Rightarrow> [] | Some b \<Rightarrow> b) in
              case stat_sizes w (map fst (case image_files result of None \<Rightarrow> [] | Some l \<Rightarrow> l)) of
                Inl e \<Rightarrow> (w, Inl e)
              | Inr img_size \<Rightarrow> (w, Inr (before_size, before_size + body_size + img_size)))
           else
             (let page_content = read_text file_content in
              case body_html result of
                None \<Rightarrow> (w, Inl (KeyError ''body_html''))
              | Some new_body \<Rightarrow>
                  (case locate_region page_content of
                     NoOpenTag \<Rightarrow>
                       (warn (no_open_warning @ reader result) w,
                        Inr (before_size, before_size))
                   | NoCloseTag \<Rightarrow>
                       (warn (no_close_warning @ reader result) w,
                        Inr (before_size, before_size))
                   | Region content_start close_idx \<Rightarrow>
                       (case copy_images (reader result) (reader_slug result)
                               (case image_files result of None \<Rightarrow> [] | Some l \<Rightarrow> l) 0 w of
                          (w', Inl e) \<Rightarrow> (w', Inl e)
                        | (w', Inr total_img_size) \<Rightarrow>
                            (let page' = new_content page_content new_body content_start close_idx in
                             (w'\<lparr>pages := (pages w')(reader result \<mapsto> page')\<rparr>,
                              Inr (before_size, utf8_len page' + total_img_size))))))))"

section \<open>Occurrences\<close>

text \<open>\<open>sub\<close> occurs in \<open>s\<close> at index \<open>i\<close>: \<^verbatim>\<open>s[i:i+len(sub)] == sub\<close>.\<close>

definition occurs_at :: "string \<Rightarrow> string \<Rightarrow> nat \<Rightarrow> bool" where
  "occurs_at sub s i = (i \<le> length s \<and> prefix sub (drop i s))"

text \<open>
  The first occurrence of \<open>sub\<close> at or after \<open>start\<close>, the last occurrence that lies
  within \<^verbatim>\<open>s[start:end]\<close>, and the absence of either.
\<close>

definition first_at :: "string \<Rightarrow> string \<Rightarrow> nat \<Rightarrow> nat \<Rightarrow> bool" where
  "first_at sub s start i =
     (start \<le> i \<and> occurs_at sub s i \<and> (\<forall>j. start \<le> j \<and> j < i \<longrightarrow> \<not> occurs_at sub s j))"

definition last_within :: "string \<Rightarrow> string \<Rightarrow> nat \<Rightarrow> nat \<Rightarrow> nat \<Rightarrow> bool" where
  "last_within sub s start end i =
     (start \<le> i \<and> i + length sub \<le> end \<and> occurs_at sub s i \<and>
      (\<forall>j. i < j \<and> j + length sub \<le> end \<longrightarrow> \<not> occurs_at sub s j))"

definition none_from :: "string \<Rightarrow> string \<Rightarrow> nat \<Rightarrow> bool" where
  "none_from sub s start = (\<forall>j. start \<le> j \<longrightarrow> \<not> occurs_at sub s j)"

definition none_within :: "string \<Rightarrow> string \<Rightarrow> nat \<Rightarrow> nat \<Rightarrow> bool" where
  "none_within sub s start end =
     (\<forall>j. start \<le> j \<and> j + length sub \<le> end \<longrightarrow> \<not> occurs_at sub s j)"

section \<open>Markup Transformer: \<^verbatim>\<open>clean_lo_html\<close>\<close>

subsection \<open>Character classes and case\<close>

text \<open>
  \<^verbatim>\<open>\s\<close> of \<^verbatim>\<open>re\<close> on a \<^verbatim>\<open>str\<close> pattern and the characters \<^verbatim>\<open>str.strip()\<close> removes: the
  code points below 256 for which \<^verbatim>\<open>str.isspace\<close> holds (9 to 13, 28 to 32, 133 and 160).
  \<^verbatim>\<open>str.lower\<close> on code points below 256: the letters A to Z and the capital letters from
  192 to 222 (215 is the multiplication sign) move up by 32.
\<close>

definition is_space :: "char \<Rightarrow> bool" where
  "is_space c =
     ((CHR 0x09 \<le> c \<and> c \<le> CHR 0x0D) \<or> (CHR 0x1C \<le> c \<and> c \<le> CHR 0x20) \<or>
      c = CHR 0x85 \<or> c = CHR 0xA0)"

definition lower_char :: "char \<Rightarrow> char" where
  "lower_char c =
     (if (CHR ''A'' \<le> c \<and> c \<le> CHR ''Z'') \<or> (CHR 0xC0 \<le> c \<and> c \<le> CHR 0xDE \<and> c \<noteq> CHR 0xD7)
      then char_of ((of_char c :: nat) + 32) else c)"

definition str_lower :: "string \<Rightarrow> string" where
  "str_lower s = map lower_char s"

definition str_strip :: "string \<Rightarrow> string" where
  "str_strip s = rev (dropWhile is_space (rev (dropWhile is_space s)))"

text \<open>A literal of a pattern compiled with \<^verbatim>\<open>re.IGNORECASE\<close>, at the start of a text.\<close>

definition ci_prefix :: "string \<Rightarrow> string \<Rightarrow> bool" where
  "ci_prefix lit s = (str_lower (take (length lit) s) = str_lower lit)"

definition quote :: char where
  "quote = CHR 0x22"

subsection \<open>Searching and substituting\<close>

text \<open>
  A pattern is given by its matcher: for a text, the length of the match that starts at
  the text's first character and the captured group, or \<open>None\<close> when the pattern does
  not match there. None of the patterns below matches the empty string or looks
  behind its start. \<^verbatim>\<open>re.search\<close> tries the positions from left to right;
  \<^verbatim>\<open>re.sub\<close> replaces the leftmost match and goes on after its end.
\<close>

fun re_search :: "(string \<Rightarrow> (nat \<times> 'g) option) \<Rightarrow> string \<Rightarrow> (nat \<times> 'g) option" where
  "re_search m [] = None"
| "re_search m (c # cs) =
     (case m (c # cs) of Some r \<Rightarrow> Some r | None \<Rightarrow> re_search m cs)"

fun re_sub ::
  "(string \<Rightarrow> (nat \<times> 'g) option) \<Rightarrow> (string \<Rightarrow> 'g \<Rightarrow> string) \<Rightarrow> string \<Rightarrow> string" where
  "re_sub m repl [] = []"
| "re_sub m repl (c # cs) =
     (case m (c # cs) of
        None \<Rightarrow> c # re_sub m repl cs
      | Some (n, g) \<Rightarrow> repl (take n (c # cs)) g @ re_sub m repl (drop (n - 1) cs))"

text \<open>The first alternative of \<^verbatim>\<open>(a|b|...)\<close> that the text starts with.\<close>

definition first_prefix :: "string list \<Rightarrow> string \<Rightarrow> string option" where
  "first_prefix lits s = List.find (\<lambda>lit. prefix lit s) lits"

text \<open>\<^verbatim>\<open>\s+class="(western|cjk|ctl)"\<close>\<close>

definition m_class :: "string \<Rightarrow> (nat \<times> unit) option" where
  \<open>m_class s =
     (let ws = takeWhile is_space s; rest = dropWhile is_space s in
      if ws = [] then None
      else (case first_prefix [''class="western"'', ''class="cjk"'', ''class="ctl"''] rest of
              None \<Rightarrow> None
            | Some lit \<Rightarrow> Some (length ws + length lit, ())))\<close>

text \<open>
  \<^verbatim>\<open>font-size\s*:\s*[^;"}]+;?\s*\<close>. White space is not excluded by the class, so
  \<^verbatim>\<open>\s*[^;"}]+\<close> matches the longest run of characters other than \<^verbatim>\<open>;\<close>, \<^verbatim>\<open>"\<close> and \<^verbatim>\<open>}\<close>
  after the colon, which must not be empty.
\<close>

definition m_font_size :: "string \<Rightarrow> (nat \<times> unit) option" where
  \<open>m_font_size s =
     (if \<not> prefix ''font-size'' s then None
      else (case dropWhile is_space (drop 9 s) of
              [] \<Rightarrow> None
            | c # r2 \<Rightarrow>
                if c \<noteq> CHR '':'' then None
                else (let x = takeWhile (\<lambda>c. c \<noteq> CHR '';'' \<and> c \<noteq> quote \<and> c \<noteq> CHR ''}'') r2;
                          r3 = drop (length x) r2;
                          r4 = (case r3 of [] \<Rightarrow> r3 | d # r \<Rightarrow> if d = CHR '';'' then r else r3);
                          r5 = dropWhile is_space r4
                      in if x = [] then None else Some (length s - length r5, ()))))\<close>

text \<open>\<^verbatim>\<open>\s+style="\s*"\<close>\<close>

definition m_style :: "string \<Rightarrow> (nat \<times> unit) option" where
  \<open>m_style s =
     (let ws = takeWhile is_space s; rest = dropWhile is_space s in
      if ws = [] \<or> \<not> prefix ''style="'' rest then None
      else (case dropWhile is_space (drop 7 rest) of
              [] \<Rightarrow> None
            | c # r \<Rightarrow> if c = quote then Some (length s - length r, ()) else None))\<close>

text \<open>\<^verbatim>\<open><div[^>]*column-count[^>]*>\<close> with \<^verbatim>\<open>re.IGNORECASE\<close>\<close>

definition ci_contains :: "string \<Rightarrow> string \<Rightarrow> bool" where
  "ci_contains lit s = sublist (str_lower lit) (str_lower s)"

definition m_column_count :: "string \<Rightarrow> (nat \<times> unit) option" where
  \<open>m_column_count s =
     (if \<not> ci_prefix ''<div'' s then None
      else (let t = takeWhile (\<lambda>c. c \<noteq> CHR ''>'') (drop 4 s);
                r = dropWhile (\<lambda>c. c \<noteq> CHR ''>'') (drop 4 s)
            in if r = [] \<or> \<not> ci_contains ''column-count'' t then None
               else Some (4 + length t + 1, ())))\<close>

text \<open>
  \<^verbatim>\<open><img\s+([^>]*)/?>\<close> with \<^verbatim>\<open>re.IGNORECASE\<close>. The greedy \<^verbatim>\<open>[^>]*\<close> takes a final \<^verbatim>\<open>/\<close>,
  so \<^verbatim>\<open>/?\<close> matches nothing and the group is the text up to the next \<^verbatim>\<open>>\<close>.
\<close>

definition m_img :: "string \<Rightarrow> (nat \<times> string) option" where
  \<open>m_img s =
     (if \<not> ci_prefix ''<img'' s then None
      else (let ws = takeWhile is_space (drop 4 s);
                r1 = dropWhile is_space (drop 4 s);
                g = takeWhile (\<lambda>c. c \<noteq> CHR ''>'') r1;
                r2 = dropWhile (\<lambda>c. c \<noteq> CHR ''>'') r1
            in if ws = [] \<or> r2 = [] then None
               else Some (4 + length ws + length g + 1, g)))\<close>

text \<open>\<^verbatim>\<open>src="([^"]*)"\<close>\<close>

definition m_src :: "string \<Rightarrow> (nat \<times> string) option" where
  \<open>m_src s =
     (if \<not> prefix ''src="'' s then None
      else (let g = takeWhile (\<lambda>c. c \<noteq> quote) (drop 5 s);
                r = dropWhile (\<lambda>c. c \<noteq> quote) (drop 5 s)
            in if r = [] then None else Some (5 + length g + 1, g)))\<close>

text \<open>\<^verbatim>\<open>\s+(width|height|border|name)="[^"]*"\<close>\<close>

definition m_attr :: "string \<Rightarrow> (nat \<times> unit) option" where
  \<open>m_attr s =
     (let ws = takeWhile is_space s; rest = dropWhile is_space s in
      if ws = [] then None
      else (case first_prefix [''width'', ''height'', ''border'', ''name''] rest of
              None \<Rightarrow> None
            | Some a \<Rightarrow>
                (let r1 = drop (length a) rest in
                 if \<not> prefix ''="'' r1 then None
                 else (let v = takeWhile (\<lambda>c. c \<noteq> quote) (drop 2 r1);
                           r2 = dropWhile (\<lambda>c. c \<noteq> quote) (drop 2 r1)
                       in if r2 = [] then None
                          else Some (length ws + length a + 2 + length v + 1, ())))))\<close>

subsection \<open>File names\<close>

text \<open>
  \<^verbatim>\<open>pathlib\<close> on POSIX, as up to Python 3.13: the name of a path is its last component,
  empty and \<^verbatim>\<open>.\<close> components dropped; the suffix of a name starts at its last dot, when
  that dot is neither the first nor the last character. \<^verbatim>\<open>os.path.basename\<close> is the
  text after the last slash.
\<close>

fun split_slash :: "string \<Rightarrow> string list" where
  "split_slash [] = [[]]"
| "split_slash (c # cs) =
     (if c = CHR ''/'' then [] # split_slash cs
      else (case split_slash cs of [] \<Rightarrow> [[c]] | p # ps \<Rightarrow> (c # p) # ps))"

definition path_name :: "string \<Rightarrow> string" where
  "path_name p =
     (case filter (\<lambda>c. c \<noteq> [] \<and> c \<noteq> ''.'') (split_slash p) of
        [] \<Rightarrow> []
      | q # qs \<Rightarrow> last (q # qs))"

definition name_suffix :: "string \<Rightarrow> string" where
  "name_suffix name =
     (case rfind0 ''.'' name of
        None \<Rightarrow> []
      | Some i \<Rightarrow> if 0 < i \<and> i < length name - 1 then drop i name else [])"

definition path_suffix :: "string \<Rightarrow> string" where
  "path_suffix p = name_suffix (path_name p)"

definition path_stem :: "string \<Rightarrow> string" where
  "path_stem p =
     (let name = path_name p in take (length name - length (name_suffix name)) name)"

definition basename :: "string \<Rightarrow> string" where
  "basename p = (case rfind0 ''/'' p of None \<Rightarrow> p | Some i \<Rightarrow> drop (i + 1) p)"

subsection \<open>The rename map\<close>

text \<open>\<^verbatim>\<open>f'{i:03d}'\<close>: decimal digits, padded with zeros to three characters.\<close>

fun dec :: "nat \<Rightarrow> string" where
  "dec n = (if n < 10 then [char_of (48 + n)] else dec (n div 10) @ [char_of (48 + n mod 10)])"

definition fmt_03d :: "nat \<Rightarrow> string" where
  "fmt_03d i = replicate (3 - length (dec i)) (CHR ''0'') @ dec i"

text \<open>
  A dictionary in insertion order: assigning to a key that is present replaces its
  value in place, a new key goes to the end.
\<close>

fun dict_set :: "'k \<Rightarrow> 'v \<Rightarrow> ('k \<times> 'v) list \<Rightarrow> ('k \<times> 'v) list" where
  "dict_set k v [] = [(k, v)]"
| "dict_set k v ((k', v') # kvs) =
     (if k' = k then (k, v) # kvs else (k', v') # dict_set k v kvs)"

definition img_name :: "nat \<Rightarrow> string \<Rightarrow> string" where
  "img_name i orig_name =
     (let ext = (if path_suffix orig_name = [] then ''.png'' else path_suffix orig_name)
      in ''img'' @ fmt_03d i @ ext)"

text \<open>Lines 124 to 129: the loop over \<^verbatim>\<open>enumerate(sorted_images, 1)\<close>.\<close>

fun assign_names :: "nat \<Rightarrow> string list \<Rightarrow> (string \<times> string) list \<Rightarrow> (string \<times> string) list" where
  "assign_names i [] img_map = img_map"
| "assign_names i (orig_name # rest) img_map =
     assign_names (Suc i) rest (dict_set orig_name (img_name i orig_name) img_map)"

definition build_img_map :: "string list \<Rightarrow> (string \<times> string) list" where
  "build_img_map image_names = assign_names 1 (sort image_names) []"

subsection \<open>Rewriting image references\<close>

text \<open>
  Library code that is not part of the repository is a parameter: \<^verbatim>\<open>urllib.parse.unquote\<close>
  and the \<^verbatim>\<open>html.parser.HTMLParser\<close> that drives \<^verbatim>\<open>TagStripper\<close>
  (\<open>tag_stripper tags html\<close> is \<^verbatim>\<open>strip_tags(html, tags)\<close>).
\<close>

record pylib =
  unquote :: "string \<Rightarrow> string"
  tag_stripper :: "string list \<Rightarrow> string \<Rightarrow> string"

text \<open>
  Lines 132 to 152, for a match \<open>whole\<close> with group \<open>tag_content\<close>. \<^verbatim>\<open>re.sub\<close> reads
  its replacement as a template; a replacement without a backslash stands for itself,
  which is what is substituted here, so the definition is that of the code for slugs
  and new names without a backslash.
\<close>

definition rewrite_img ::
  "pylib \<Rightarrow> string \<Rightarrow> (string \<times> string) list \<Rightarrow> string \<Rightarrow> string \<Rightarrow> string" where
  \<open>rewrite_img L slug img_map whole tag_content =
     (case re_search m_src tag_content of
        None \<Rightarrow> whole
      | Some (n, src) \<Rightarrow>
          (let src_basename = basename (unquote L src) in
           case map_of img_map src_basename of
             None \<Rightarrow> whole
           | Some renamed \<Rightarrow>
               (let new_src = ''img/'' @ slug @ ''/'' @ renamed;
                    cleaned = re_sub m_attr (\<lambda>_ _. []) tag_content;
                    cleaned = re_sub m_src (\<lambda>_ _. ''src="'' @ new_src @ [quote]) cleaned
                in ''<img '' @ str_strip cleaned @ ''>'')))\<close>

definition clean_lo_html ::
  "pylib \<Rightarrow> string \<Rightarrow> string list \<Rightarrow> string \<Rightarrow> string \<times> (string \<times> string) list" where
  "clean_lo_html L body image_names slug =
     (let result = tag_stripper L [''font''] body;
          result = re_sub m_class (\<lambda>_ _. []) result;
          result = re_sub m_font_size (\<lambda>_ _. []) result;
          result = re_sub m_style (\<lambda>_ _. []) result;
          result = re_sub m_column_count (\<lambda>_ _. []) result;
          img_map = build_img_map image_names;
          result = re_sub m_img (rewrite_img L slug img_map) result
      in (result, img_map))"

subsection \<open>The matches of a substitution\<close>

text \<open>
  The pieces \<^verbatim>\<open>re.sub\<close> cuts a text into: a character no match covers, or a match with
  its group. The substitution keeps the former and replaces the latter.
\<close>

datatype 'g piece = Kept char | Hit string 'g

fun pieces :: "(string \<Rightarrow> (nat \<times> 'g) option) \<Rightarrow> string \<Rightarrow> 'g piece list" where
  "pieces m [] = []"
| "pieces m (c # cs) =
     (case m (c # cs) of
        None \<Rightarrow> Kept c # pieces m cs
      | Some (n, g) \<Rightarrow> Hit (take n (c # cs)) g # pieces m (drop (n - 1) cs))"

fun render :: "(string \<Rightarrow> 'g \<Rightarrow> string) \<Rightarrow> 'g piece \<Rightarrow> string" where
  "render repl (Kept c) = [c]"
| "render repl (Hit whole g) = repl whole g"

section \<open>Conversion Job Runner: \<^verbatim>\<open>convert_one\<close>\<close>

text \<open>
  What one run of the external converter does is a parameter: the directory
  \<^verbatim>\<open>tempfile.mkdtemp\<close> returns, how the \<^verbatim>\<open>try\<close> block of lines 228 to 283 leaves
  \<^verbatim>\<open>subprocess.run\<close> (the timeout, some other exception with its \<^verbatim>\<open>str\<close>, or a completed
  process with its return code and its standard error), and the entries of the
  directory afterwards, in the order the directory enumerates them, each with its
  content. \<open>Raised\<close> also stands for an exception of a later line of the block: all of
  them reach the same handler before any field of the result is set.
\<close>

datatype proc_outcome = TimeoutExpired | Raised string | Completed int string

record lo_run =
  run_tmpdir :: string
  outcome :: proc_outcome
  produced :: "(string \<times> string) list"

text \<open>
  The environment of a run of the script: the library functions, the converter's run
  for a source document (given by theme and file name), the archive root and the
  time stamp of the report.
\<close>

record environment =
  lib :: pylib
  converter :: "string \<Rightarrow> string \<Rightarrow> lo_run"
  archive_root :: string
  now :: string

text \<open>The argument tuple of \<^verbatim>\<open>convert_one\<close>.\<close>

record job =
  j_theme :: string
  j_source :: string
  j_path :: string
  j_reader :: string
  j_worker :: int
  j_index :: nat
  j_total :: nat

text \<open>\<^verbatim>\<open>str(n)\<close> for an integer.\<close>

definition str_int :: "int \<Rightarrow> string" where
  "str_int n = (if n < 0 then ''-'' @ dec (nat (- n)) else dec (nat n))"

text \<open>
  \<^verbatim>\<open>extract_lo_body\<close>, for the content of the converter's HTML file, which is read with
  \<^verbatim>\<open>read_text\<close>: the pattern \<^verbatim>\<open><body[^>]*>(.*?)</body>\<close> with \<^verbatim>\<open>re.DOTALL\<close> and
  \<^verbatim>\<open>re.IGNORECASE\<close>; the lazy group ends at the first closing tag.
\<close>

fun ci_find0 :: "string \<Rightarrow> string \<Rightarrow> nat option" where
  "ci_find0 lit [] = (if lit = [] then Some 0 else None)"
| "ci_find0 lit (c # cs) =
     (if ci_prefix lit (c # cs) then Some 0 else map_option Suc (ci_find0 lit cs))"

definition m_body :: "string \<Rightarrow> (nat \<times> string) option" where
  \<open>m_body s =
     (if \<not> ci_prefix ''<body'' s then None
      else (case dropWhile (\<lambda>c. c \<noteq> CHR ''>'') (drop 5 s) of
              [] \<Rightarrow> None
            | c # r \<Rightarrow>
                (case ci_find0 ''</body>'' r of
                   None \<Rightarrow> None
                 | Some i \<Rightarrow> Some (length s - length r + i + 7, take i r))))\<close>

definition extract_lo_body :: "string \<Rightarrow> string" where
  "extract_lo_body file_content =
     (let content = read_text file_content in
      case re_search m_body content of
        Some (n, g) \<Rightarrow> str_strip g
      | None \<Rightarrow> content)"

definition image_suffixes :: "string list" where
  "image_suffixes =
     [''.png'', ''.jpg'', ''.jpeg'', ''.gif'', ''.bmp'', ''.tiff'', ''.tif'', ''.svg'', ''.wmf'', ''.emf'']"

text \<open>\<^verbatim>\<open>shutil.rmtree(tmpdir, ignore_errors=True)\<close>: every file below the directory goes.\<close>

definition rmtree :: "string \<Rightarrow> world \<Rightarrow> world" where
  "rmtree d w = w\<lparr>tmp := (\<lambda>p. if prefix (d @ ''/'') p then None else tmp w p)\<rparr>"

text \<open>The converter's output files, in the temporary directory.\<close>

definition write_tmp :: "string \<Rightarrow> (string \<times> string) list \<Rightarrow> world \<Rightarrow> world" where
  "write_tmp d entries w =
     w\<lparr>tmp := (\<lambda>p. case map_of (map (\<lambda>(n, data). (d @ ''/'' @ n, data)) entries) p of
                    Some data \<Rightarrow> Some data
                  | None \<Rightarrow> tmp w p)\<rparr>"

text \<open>
  \<^verbatim>\<open>result.get('image_files')\<close> as a condition: the key is set and its list is not empty.
  The \<^verbatim>\<open>finally\<close> block, lines 289 to 294.
\<close>

definition has_image_files :: "conv_result \<Rightarrow> bool" where
  "has_image_files result = (case image_files result of Some (f # fs) \<Rightarrow> True | _ \<Rightarrow> False)"

definition finally_block :: "string \<Rightarrow> conv_result \<Rightarrow> world \<Rightarrow> world \<times> conv_result" where
  "finally_block d result w =
     (if has_image_files result then (w, result\<lparr>tmpdir := Some d\<rparr>)
      else (rmtree d w, result))"

text \<open>Lines 249 to 283, after a completed process.\<close>

definition inspect_output ::
  "pylib \<Rightarrow> string \<Rightarrow> (string \<times> string) list \<Rightarrow> int \<Rightarrow> string \<Rightarrow> conv_result \<Rightarrow> conv_result" where
  "inspect_output L d entries returncode stderr result =
     (if returncode \<noteq> 0 then
        result\<lparr>error := Some (''LO exit code '' @ str_int returncode @ '': '' @ take 200 stderr)\<rparr>
      else
        (let names = map fst entries;
             html_files = filter (suffix ''.html'') names @ filter (suffix ''.htm'') names
         in case html_files of
              [] \<Rightarrow> result\<lparr>error := Some ''No HTML output produced''\<rparr>
            | lo_html # _ \<Rightarrow>
                (let image_names =
                       filter (\<lambda>f. f \<noteq> lo_html \<and> str_lower (name_suffix f) \<in> set image_suffixes)
                         (sort (remdups names))
                 in if image_names = [] then result\<lparr>skipped := True\<rparr>
                    else
                      (let content = (case map_of entries lo_html of Some data \<Rightarrow> data | None \<Rightarrow> []);
                           cleaned = clean_lo_html L (extract_lo_body content) image_names
                                       (reader_slug result);
                           img_map = snd cleaned
                       in result
                            \<lparr>body_html := Some (fst cleaned),
                             image_files :=
                               Some (map (\<lambda>f. (d @ ''/'' @ f,
                                            case map_of img_map f of Some n \<Rightarrow> n | None \<Rightarrow> f))
                                       image_names),
                             images := map snd img_map,
                             num_images := Some (length image_names)\<rparr>))))"

definition convert_one :: "environment \<Rightarrow> job \<Rightarrow> world \<Rightarrow> world \<times> conv_result" where
  "convert_one E args w =
     (let result =
            \<lparr>theme = j_theme args, source = j_source args, reader = j_reader args,
             reader_slug = path_stem (j_reader args), images = [], error = None,
             skipped = False, body_html = None, image_files = None, num_images = None,
             tmpdir = None\<rparr>;
          run = converter E (j_theme args) (j_source args);
          d = run_tmpdir run;
          w' = write_tmp d (produced run) w
      in case outcome run of
           TimeoutExpired \<Rightarrow> finally_block d (result\<lparr>error := Some ''Timeout after 60s''\<rparr>) w'
         | Raised msg \<Rightarrow> finally_block d (result\<lparr>error := Some msg\<rparr>) w'
         | Completed returncode stderr \<Rightarrow>
             finally_block d (inspect_output (lib E) d (produced run) returncode stderr result) w')"

section \<open>The run: \<^verbatim>\<open>main\<close>\<close>

text \<open>
  The command line (the theme option only restricts \<^verbatim>\<open>build_mapping\<close>), and the mapping
  \<^verbatim>\<open>build_mapping\<close> returns: a dictionary from theme and source file name to the reader
  page, in insertion order. \<open>main\<close> below is the function from line 399 on, with that
  mapping as a parameter; \<open>run_main\<close>, after \<open>build_mapping\<close>, is the function from its
  first line.
\<close>

record args =
  arg_workers :: int
  arg_force :: bool
  arg_dry_run :: bool

type_synonym mapping = "((string \<times> string) \<times> string) list"

text \<open>
  How a run ends: with an exception that nothing catches, at line 465 with nothing to
  update, or after the report is written.
\<close>

datatype run_outcome = Crashed py_error | NothingToUpdate | Finished report

text \<open>
  Lines 402 to 413: the pages that carry the marker are dropped and counted. Reading a
  page that is not there raises.
\<close>

fun filter_processed :: "world \<Rightarrow> mapping \<Rightarrow> py_error + mapping \<times> nat" where
  "filter_processed w [] = Inr ([], 0)"
| "filter_processed w ((key, reader_html) # rest) =
     (case pages w reader_html of
        None \<Rightarrow> Inl (FileNotFoundError reader_html)
      | Some content \<Rightarrow>
          (case filter_processed w rest of
             Inl e \<Rightarrow> Inl e
           | Inr (filtered, skipped_existing) \<Rightarrow>
               if str_contains lo_marker (read_text content)
               then Inr (filtered, Suc skipped_existing)
               else Inr ((key, reader_html) # filtered, skipped_existing)))"

definition convertible_suffixes :: "string list" where
  "convertible_suffixes = [''.doc'', ''.docx'', ''.rtf'', ''.odt'']"

text \<open>
  Lines 416 to 424, over \<^verbatim>\<open>enumerate(sorted(mapping.items()))\<close> from index \<open>i\<close> on. The
  source path is the archive root joined with the theme, \<^verbatim>\<open>files\<close> and a relative file
  name. \<^verbatim>\<open>i % args.workers\<close> raises when the worker count is zero.
\<close>

definition source_path :: "environment \<Rightarrow> string \<Rightarrow> string \<Rightarrow> string" where
  "source_path E theme_name source_filename =
     archive_root E @ ''/'' @ theme_name @ ''/files/'' @ source_filename"

definition convertible :: "environment \<Rightarrow> (string \<times> string) \<times> string \<Rightarrow> bool" where
  "convertible E item =
     (case item of ((theme_name, source_filename), reader_html) \<Rightarrow>
        str_lower (path_suffix (source_path E theme_name source_filename))
          \<in> set convertible_suffixes)"

fun prepare_work :: "environment \<Rightarrow> int \<Rightarrow> nat \<Rightarrow> nat \<Rightarrow> mapping \<Rightarrow> py_error + job list" where
  "prepare_work E workers n_total i [] = Inr []"
| "prepare_work E workers n_total i (((theme_name, source_filename), reader_html) # rest) =
     (if \<not> convertible E ((theme_name, source_filename), reader_html)
      then prepare_work E workers n_total (Suc i) rest
      else if workers = 0 then Inl ZeroDivisionError
      else (case prepare_work E workers n_total (Suc i) rest of
              Inl e \<Rightarrow> Inl e
            | Inr work \<Rightarrow>
                Inr (\<lparr>j_theme = theme_name, j_source = source_filename,
                      j_path = source_path E theme_name source_filename,
                      j_reader = reader_html, j_worker = int i mod workers,
                      j_index = i + 1, j_total = n_total\<rparr> # work)))"

text \<open>
  Phase 2. The jobs run in a thread pool and complete in any order; the results are
  sorted by reader page before they are used, so the jobs are run here one after the
  other, in the order of the work list.
\<close>

fun convert_all :: "environment \<Rightarrow> job list \<Rightarrow> world \<Rightarrow> world \<times> conv_result list" where
  "convert_all E [] w = (w, [])"
| "convert_all E (j # js) w =
     (case convert_one E j w of
        (w', r) \<Rightarrow> (case convert_all E js w' of (w'', rs) \<Rightarrow> (w'', r # rs)))"

text \<open>\<^verbatim>\<open>if result['error']\<close>: the error is set and is not the empty string.\<close>

definition is_error :: "conv_result \<Rightarrow> bool" where
  "is_error r = (case error r of Some (c # cs) \<Rightarrow> True | _ \<Rightarrow> False)"

definition with_images :: "conv_result \<Rightarrow> bool" where
  "with_images r = (\<not> is_error r \<and> \<not> skipped r)"

text \<open>Lines 473 to 488, for one result: the counters, the patch, the clean-up.\<close>

definition zero_stats :: theme_stats where
  "zero_stats = \<lparr>ts_updated = 0, ts_images = 0, ts_before = 0, ts_after = 0\<rparr>"

definition stats_of :: "(string \<times> theme_stats) list \<Rightarrow> string \<Rightarrow> theme_stats" where
  "stats_of stats th = (case map_of stats th of Some s \<Rightarrow> s | None \<Rightarrow> zero_stats)"

definition cleanup :: "conv_result \<Rightarrow> world \<Rightarrow> world" where
  "cleanup r w = (case tmpdir r of Some (c # cs) \<Rightarrow> rmtree (c # cs) w | _ \<Rightarrow> w)"

definition patch_one ::
  "bool \<Rightarrow> conv_result \<Rightarrow> (string \<times> theme_stats) list \<Rightarrow> world \<Rightarrow>
     world \<times> (py_error + (string \<times> theme_stats) list)" where
  "patch_one dry r stats w =
     (let stats1 = (if map_of stats (theme r) = None then dict_set (theme r) zero_stats stats
                    else stats)
      in case update_reader_page r dry w of
           (w', Inl e) \<Rightarrow> (w', Inl e)
         | (w', Inr (before_bytes, after_bytes)) \<Rightarrow>
             (let s = stats_of stats1 (theme r);
                  s' = s\<lparr>ts_updated := ts_updated s + 1,
                         ts_images := ts_images s + (case num_images r of Some n \<Rightarrow> n | None \<Rightarrow> 0),
                         ts_before := ts_before s + before_bytes,
                         ts_after := ts_after s + after_bytes\<rparr>
              in (cleanup r w', Inr (dict_set (theme r) s' stats1))))"

fun patch_all ::
  "bool \<Rightarrow> conv_result list \<Rightarrow> (string \<times> theme_stats) list \<Rightarrow> world \<Rightarrow>
     world \<times> (py_error + (string \<times> theme_stats) list)" where
  "patch_all dry [] stats w = (w, Inr stats)"
| "patch_all dry (r # rs) stats w =
     (case patch_one dry r stats w of
        (w', Inl e) \<Rightarrow> (w', Inl e)
      | (w', Inr stats') \<Rightarrow> patch_all dry rs stats' w')"

text \<open>Lines 500 to 549.\<close>

definition sum_stats :: "(string \<times> theme_stats) list \<Rightarrow> theme_stats" where
  "sum_stats stats =
     \<lparr>ts_updated = sum_list (map (\<lambda>(th, s). ts_updated s) stats),
      ts_images = sum_list (map (\<lambda>(th, s). ts_images s) stats),
      ts_before = sum_list (map (\<lambda>(th, s). ts_before s) stats),
      ts_after = sum_list (map (\<lambda>(th, s). ts_after s) stats)\<rparr>"

definition make_report ::
  "environment \<Rightarrow> args \<Rightarrow> (string \<times> theme_stats) list \<Rightarrow> conv_result list \<Rightarrow> conv_result list \<Rightarrow> report" where
  "make_report E a stats all_results results =
     \<lparr>timestamp = now E, rp_dry_run = arg_dry_run a, themes = stats, totals = sum_stats stats,
      rp_errors = length (filter is_error all_results),
      skipped_no_images = length (filter (\<lambda>r. \<not> is_error r \<and> skipped r) all_results),
      files = map (\<lambda>r. \<lparr>fe_theme = theme r, fe_source = source r, fe_reader = reader_slug r,
                          fe_num_images = (case num_images r of Some n \<Rightarrow> n | None \<Rightarrow> 0)\<rparr>)
                (sort_key reader results)\<rparr>"

text \<open>
  Phases 1 and 2: the work list and the results of all jobs, or the exception that ends
  the run (\<^verbatim>\<open>ThreadPoolExecutor\<close> refuses a worker count below one).
\<close>

definition work_list :: "environment \<Rightarrow> args \<Rightarrow> mapping \<Rightarrow> world \<Rightarrow> py_error + job list" where
  "work_list E a m w =
     (case (if arg_force a then Inr (m, 0) else filter_processed w m) of
        Inl e \<Rightarrow> Inl e
      | Inr (filtered, skipped_existing) \<Rightarrow>
          (case prepare_work E (arg_workers a) (length filtered) 0 (sort_key fst filtered) of
             Inl e \<Rightarrow> Inl e
           | Inr work \<Rightarrow>
               if arg_workers a \<le> 0 then Inl (ValueError ''max_workers must be greater than 0'')
               else Inr work))"

definition main :: "environment \<Rightarrow> args \<Rightarrow> mapping \<Rightarrow> world \<Rightarrow> world \<times> run_outcome" where
  "main E a m w =
     (case work_list E a m w of
        Inl e \<Rightarrow> (w, Crashed e)
      | Inr work \<Rightarrow>
          (case convert_all E work w of
             (w1, all_results) \<Rightarrow>
               (let results = filter with_images all_results in
                if results = [] then (w1, NothingToUpdate)
                else (case patch_all (arg_dry_run a) (sort_key reader results) [] w1 of
                        (w2, Inl e) \<Rightarrow> (w2, Crashed e)
                      | (w2, Inr stats) \<Rightarrow>
                          (let rep = make_report E a stats all_results results
                           in (w2\<lparr>report_file := Some rep\<rparr>, Finished rep))))))"

section \<open>Mapping Builder: \<^verbatim>\<open>build_mapping\<close>\<close>

text \<open>
  The archive as \<^verbatim>\<open>build_mapping\<close> finds it: the entries of the archive root, the entries
  of the \<^verbatim>\<open>read\<close> directory of a theme (\<open>None\<close> when that is not a directory), and the
  paths that exist. The script creates and removes neither reader pages nor source
  documents, so these are kept apart from the part of the file system that a run
  changes; the content of a page is read from there.
\<close>

record listing =
  root_entries :: "string list"
  read_entries :: "string \<Rightarrow> string list option"
  existing :: "string set"

text \<open>The patterns \<^verbatim>\<open>[0-9][0-9]-*\<close> and \<^verbatim>\<open>*.html\<close> of \<^verbatim>\<open>Path.glob\<close>, on an entry's name.\<close>

definition is_digit :: "char \<Rightarrow> bool" where
  "is_digit c = (CHR ''0'' \<le> c \<and> c \<le> CHR ''9'')"

definition theme_glob :: "string \<Rightarrow> bool" where
  "theme_glob name =
     (case name of
        a # b # c # rest \<Rightarrow> is_digit a \<and> is_digit b \<and> c = CHR ''-''
      | _ \<Rightarrow> False)"

definition html_glob :: "string \<Rightarrow> bool" where
  "html_glob name = suffix ''.html'' name"

text \<open>
  \<^verbatim>\<open><a\s+class="file-link-btn"\s+href="\.\./files/([^"]+)"\<close> with \<^verbatim>\<open>re.IGNORECASE\<close>. Each
  \<^verbatim>\<open>\s+\<close> is followed by a letter, so it takes the whole run of white space; the group is
  the longest run of characters other than the double quote, which must not be empty
  and must be followed by a double quote.
\<close>

definition m_link :: "string \<Rightarrow> (nat \<times> string) option" where
  \<open>m_link s =
     (if \<not> ci_prefix ''<a'' s then None
      else (let ws1 = takeWhile is_space (drop 2 s);
                r1 = dropWhile is_space (drop 2 s)
            in if ws1 = [] \<or> \<not> ci_prefix ''class="file-link-btn"'' r1 then None
               else (let r2 = drop (length ''class="file-link-btn"'') r1;
                         ws2 = takeWhile is_space r2;
                         r3 = dropWhile is_space r2
                     in if ws2 = [] \<or> \<not> ci_prefix ''href="../files/'' r3 then None
                        else (let r4 = drop (length ''href="../files/'') r3;
                                  g = takeWhile (\<lambda>c. c \<noteq> quote) r4;
                                  r5 = dropWhile (\<lambda>c. c \<noteq> quote) r4
                              in if g = [] \<or> r5 = [] then None
                                 else Some (length s - length r5 + 1, g)))))\<close>

text \<open>
  Lines 189 to 201, over the sorted pages of one theme, and lines 185 to 201, over the
  theme directories. A page that is listed and cannot be read raises.
\<close>

definition reader_path :: "environment \<Rightarrow> string \<Rightarrow> string \<Rightarrow> string" where
  "reader_path E theme_name name = archive_root E @ ''/'' @ theme_name @ ''/read/'' @ name"

fun scan_pages ::
  "environment \<Rightarrow> listing \<Rightarrow> world \<Rightarrow> string \<Rightarrow> string list \<Rightarrow> mapping \<Rightarrow> py_error + mapping" where
  "scan_pages E A w theme_name [] mapping = Inr mapping"
| "scan_pages E A w theme_name (name # names) mapping =
     (let reader_html = reader_path E theme_name name in
      case pages w reader_html of
        None \<Rightarrow> Inl (FileNotFoundError reader_html)
      | Some content \<Rightarrow>
          (case re_search m_link (read_text content) of
             None \<Rightarrow> scan_pages E A w theme_name names mapping
           | Some (n, g) \<Rightarrow>
               (let source_filename = unquote (lib E) g in
                if source_path E theme_name source_filename \<in> existing A
                then scan_pages E A w theme_name names
                       (dict_set (theme_name, source_filename) reader_html mapping)
                else scan_pages E A w theme_name names mapping)))"

fun scan_themes ::
  "environment \<Rightarrow> listing \<Rightarrow> world \<Rightarrow> string list \<Rightarrow> mapping \<Rightarrow> py_error + mapping" where
  "scan_themes E A w [] mapping = Inr mapping"
| "scan_themes E A w (theme_name # rest) mapping =
     (case read_entries A theme_name of
        None \<Rightarrow> scan_themes E A w rest mapping
      | Some entries \<Rightarrow>
          (case scan_pages E A w theme_name (sort (filter html_glob entries)) mapping of
             Inl e \<Rightarrow> Inl e
           | Inr mapping' \<Rightarrow> scan_themes E A w rest mapping'))"

definition build_mapping ::
  "environment \<Rightarrow> listing \<Rightarrow> string list option \<Rightarrow> world \<Rightarrow> py_error + mapping" where
  "build_mapping E A only_themes w =
     (let theme_dirs = sort (filter theme_glob (root_entries A));
          theme_dirs = (case only_themes of
                          Some (t # ts) \<Rightarrow> filter (\<lambda>d. d \<in> set (t # ts)) theme_dirs
                        | _ \<Rightarrow> theme_dirs)
      in scan_themes E A w theme_dirs [])"

text \<open>
  The script from its first line: the mapping is built for the theme option, when one
  is given and not empty, and \<^verbatim>\<open>main\<close> goes on with it.
\<close>

definition run_main ::
  "environment \<Rightarrow> listing \<Rightarrow> string option \<Rightarrow> args \<Rightarrow> world \<Rightarrow> world \<times> run_outcome" where
  "run_main E A theme_option a w =
     (case build_mapping E A (case theme_option of Some (c # cs) \<Rightarrow> Some [c # cs] | _ \<Rightarrow> None) w of
        Inl e \<Rightarrow> (w, Crashed e)
      | Inr mapping \<Rightarrow> main E a mapping w)"

text \<open>
  The key under which \<^verbatim>\<open>build_mapping\<close> enters a listed page, if it enters it: the theme
  and the decoded target of the page's first download link, when that file exists.
  \<open>unique_links\<close>: no two listed pages of a theme are entered under the same key.
\<close>

definition page_key ::
  "environment \<Rightarrow> listing \<Rightarrow> world \<Rightarrow> string \<Rightarrow> string \<Rightarrow> (string \<times> string) option" where
  "page_key E A w theme_name name =
     (case pages w (reader_path E theme_name name) of
        None \<Rightarrow> None
      | Some content \<Rightarrow>
          (case re_search m_link (read_text content) of
             None \<Rightarrow> None
           | Some (n, g) \<Rightarrow>
               if source_path E theme_name (unquote (lib E) g) \<in> existing A
               then Some (theme_name, unquote (lib E) g) else None))"

definition html_entries :: "listing \<Rightarrow> string \<Rightarrow> string list" where
  "html_entries A theme_name =
     (case read_entries A theme_name of None \<Rightarrow> [] | Some entries \<Rightarrow> filter html_glob entries)"

definition unique_links :: "environment \<Rightarrow> listing \<Rightarrow> world \<Rightarrow> bool" where
  "unique_links E A w =
     (\<forall>th \<in> set (root_entries A). \<forall>n \<in> set (html_entries A th). \<forall>n' \<in> set (html_entries A th).
        page_key E A w th n \<noteq> None \<and> page_key E A w th n = page_key E A w th n' \<longrightarrow> n = n')"

section \<open>Example inputs\<close>

text \<open>A reader page that conforms to the expected structure.\<close>

definition ex_page :: string where
  \<open>ex_page = ''<body><div class="reader-content">old</div><a class="file-link-btn" href="../files/a.doc">a</a></body>''\<close>

text \<open>A page whose download link lies inside the container, before any closing tag.\<close>

definition link_inside_page :: string where
  \<open>link_inside_page = ''<div class="reader-content">x<a class="file-link-btn" href="f">f</a></div>''\<close>

definition ex_result :: conv_result where
  \<open>ex_result =
     \<lparr>theme = ''01-letters'', source = ''a.doc'', reader = ''/arc/01-letters/read/a.html'',
      reader_slug = ''a'', images = [''img001.png''], error = None, skipped = False,
      body_html = Some ''<p><img src="img/a/img001.png"></p>'',
      image_files = Some [(''/tmp/lo_conv_0_x/a_html_1.png'', ''img001.png'')],
      num_images = Some 1, tmpdir = Some ''/tmp/lo_conv_0_x''\<rparr>\<close>

definition ex_world :: world where
  "ex_world =
     \<lparr>pages = [''/arc/01-letters/read/a.html'' \<mapsto> ex_page], assets = Map.empty,
      tmp = [''/tmp/lo_conv_0_x/a_html_1.png'' \<mapsto> ''PNG''], report_file = None,
      denied = {}, warnings = []\<rparr>"

text \<open>
  An instance of the library parameters: both functions return their argument, as
  \<^verbatim>\<open>urllib.parse.unquote\<close> does on a string without \<^verbatim>\<open>%\<close> and \<^verbatim>\<open>TagStripper\<close> on markup in
  the form it writes with none of the tags to strip.
\<close>

definition plain_lib :: pylib where
  "plain_lib = \<lparr>unquote = (\<lambda>s. s), tag_stripper = (\<lambda>tags html. html)\<rparr>"

definition two_images_body :: string where
  \<open>two_images_body = ''<p><img src="picture2.png" name="Image1" width="10"> <img src="picture1.jpg"></p>''\<close>

text \<open>
  A converter that finds one image in \<^verbatim>\<open>a.doc\<close>, none in \<^verbatim>\<open>b.rtf\<close>, and fails on every
  other document with exit code 77 and a long diagnostic output.
\<close>

definition ex_converter :: "string \<Rightarrow> string \<Rightarrow> lo_run" where
  \<open>ex_converter th src =
     (if src = ''a.doc'' then
        \<lparr>run_tmpdir = ''/tmp/lo_conv_0_x'', outcome = Completed 0 [],
         produced = [(''a_html_1.png'', ''PNG''),
                     (''a.html'', ''<html><body><p><img src="a_html_1.png" width="5"></p></body></html>'')]\<rparr>
      else if src = ''b.rtf'' then
        \<lparr>run_tmpdir = ''/tmp/lo_conv_1_y'', outcome = Completed 0 [],
         produced = [(''b.html'', ''<html><body><p>text</p></body></html>'')]\<rparr>
      else
        \<lparr>run_tmpdir = ''/tmp/lo_conv_2_z'', outcome = Completed 77 (replicate 300 (CHR ''e'')),
         produced = []\<rparr>)\<close>

definition ex_env :: environment where
  "ex_env =
     \<lparr>lib = plain_lib, converter = ex_converter, archive_root = ''/arc'',
      now = ''2024-01-01T00:00:00''\<rparr>"

definition ex_job :: "string \<Rightarrow> job" where
  "ex_job src =
     \<lparr>j_theme = ''01-letters'', j_source = src, j_path = ''/arc/01-letters/files/'' @ src,
      j_reader = ''/arc/01-letters/read/a.html'', j_worker = 0, j_index = 1, j_total = 1\<rparr>"

text \<open>
  An archive with one reader page for \<^verbatim>\<open>a.doc\<close>, conforming or without the container, and
  the command lines of a plain run and of a dry run.
\<close>

definition ex_mapping :: mapping where
  "ex_mapping = [((''01-letters'', ''a.doc''), ''/arc/01-letters/read/a.html'')]"

definition no_container_page :: string where
  \<open>no_container_page = ''<body><p>old</p><a class="file-link-btn" href="../files/a.doc">a</a></body>''\<close>

definition start_world :: "string \<Rightarrow> world" where
  "start_world page =
     \<lparr>pages = [''/arc/01-letters/read/a.html'' \<mapsto> page], assets = Map.empty, tmp = Map.empty,
      report_file = None, denied = {}, warnings = []\<rparr>"

definition plain_run :: args where
  "plain_run = \<lparr>arg_workers = 4, arg_force = False, arg_dry_run = False\<rparr>"


definition three_documents :: mapping where
  "three_documents =
     [((''01-letters'', ''a.doc''), ''/arc/01-letters/read/a.html''),
      ((''01-letters'', ''b.RTF''), ''/arc/01-letters/read/b.html''),
      ((''01-letters'', ''scan.pdf''), ''/arc/01-letters/read/scan.html'')]"

text \<open>The report of a plain run over the page without the container.\<close>

definition aborted_report :: report where
  "aborted_report =
     \<lparr>timestamp = ''2024-01-01T00:00:00'', rp_dry_run = False,
      themes = [(''01-letters'',
                 \<lparr>ts_updated = 1, ts_images = 1, ts_before = 75, ts_after = 75\<rparr>)],
      totals = \<lparr>ts_updated = 1, ts_images = 1, ts_before = 75, ts_after = 75\<rparr>,
      rp_errors = 0, skipped_no_images = 0,
      files = [\<lparr>fe_theme = ''01-letters'', fe_source = ''a.doc'', fe_reader = ''a'',
                fe_num_images = 1\<rparr>]\<rparr>"



text \<open>
  An archive with two reader pages for \<^verbatim>\<open>a.doc\<close>: the conforming page \<^verbatim>\<open>a.html\<close> and a page
  \<^verbatim>\<open>b.html\<close> whose download link lies inside the container.
\<close>

definition twin_page :: string where
  \<open>twin_page = ''<div class="reader-content">x<a class="file-link-btn" href="../files/a.doc">f</a></div>''\<close>

definition twin_listing :: listing where
  "twin_listing =
     \<lparr>root_entries = [''01-letters''],
      read_entries = (\<lambda>th. if th = ''01-letters'' then Some [''b.html'', ''a.html''] else None),
      existing = {''/arc/01-letters/files/a.doc''}\<rparr>"

definition twin_world :: world where
  "twin_world =
     \<lparr>pages = [''/arc/01-letters/read/a.html'' \<mapsto> ex_page,
               ''/arc/01-letters/read/b.html'' \<mapsto> twin_page],
      assets = Map.empty, tmp = Map.empty, report_file = None, denied = {}, warnings = []\<rparr>"

text \<open>The report of a plain run over the two pages.\<close>

definition twin_report :: report where
  "twin_report =
     \<lparr>timestamp = ''2024-01-01T00:00:00'', rp_dry_run = False,
      themes = [(''01-letters'',
                 \<lparr>ts_updated = 1, ts_images = 1, ts_before = 87, ts_after = 93\<rparr>)],
      totals = \<lparr>ts_updated = 1, ts_images = 1, ts_before = 87, ts_after = 93\<rparr>,
      rp_errors = 0, skipped_no_images = 0,
      files = [\<lparr>fe_theme = ''01-letters'', fe_source = ''a.doc'', fe_reader = ''b'',
                fe_num_images = 1\<rparr>]\<rparr>"

text \<open>The archive with the conforming page alone.\<close>

definition single_listing :: listing where
  "single_listing =
     \<lparr>root_entries = [''01-letters''],
      read_entries = (\<lambda>th. if th = ''01-letters'' then Some [''a.html''] else None),
      existing = {''/arc/01-letters/files/a.doc''}\<rparr>"

text \<open>
  A page stored with carriage returns before its line feeds, in the place of the
  conforming page of the example.
\<close>

definition crlf_page :: string where
  \<open>crlf_page = ''<p>x</p>'' @ [CHR 0x0D, CHR 0x0A] @ ''<div class="reader-content">old</div>'' @
     [CHR 0x0D, CHR 0x0A] @ ''<a class="file-link-btn" href="../files/a.doc">a</a>''\<close>

definition crlf_world :: world where
  "crlf_world = ex_world\<lparr>pages := [''/arc/01-letters/read/a.html'' \<mapsto> crlf_page]\<rparr>"

section \<open>Searching in strings\<close>

lemma occurs_at_0: "occurs_at sub s 0 = prefix sub s"
  by (simp add: occurs_at_def)

lemma occurs_at_Suc: "occurs_at sub (c # cs) (Suc j) = occurs_at sub cs j"
  by (simp add: occurs_at_def)

lemma find0_Some_iff:
  "find0 sub s = Some i \<longleftrightarrow> occurs_at sub s i \<and> (\<forall>j<i. \<not> occurs_at sub s j)"
proof (induction s arbitrary: i)
  case Nil
  then show ?case by (auto simp: occurs_at_def)
next
  case (Cons c cs)
  show ?case
  proof (cases "prefix sub (c # cs)")
    case True
    then show ?thesis
      by (cases i) (auto simp: occurs_at_0 occurs_at_Suc)
  next
    case False
    show ?thesis
    proof (cases i)
      case 0
      with False show ?thesis by (simp add: occurs_at_0)
    next
      case (Suc k)
      have "(\<forall>j<Suc k. \<not> occurs_at sub (c # cs) j) \<longleftrightarrow> (\<forall>j<k. \<not> occurs_at sub cs j)"
        using False by (auto simp: less_Suc_eq_0_disj occurs_at_0 occurs_at_Suc)
      with False Suc Cons.IH [of k] show ?thesis
        by (auto simp: occurs_at_Suc)
    qed
  qed
qed

lemma find0_None_iff: "find0 sub s = None \<longleftrightarrow> (\<forall>j. \<not> occurs_at sub s j)"
proof (induction s)
  case Nil
  then show ?case by (auto simp: occurs_at_def)
next
  case (Cons c cs)
  have "(\<forall>j. \<not> occurs_at sub (c # cs) j) \<longleftrightarrow> \<not> prefix sub (c # cs) \<and> (\<forall>j. \<not> occurs_at sub cs j)"
    by (metis occurs_at_0 occurs_at_Suc not0_implies_Suc)
  with Cons show ?case by auto
qed

lemma rfind0_None_iff: "rfind0 sub s = None \<longleftrightarrow> (\<forall>j. \<not> occurs_at sub s j)"
proof (induction s)
  case Nil
  then show ?case by (auto simp: occurs_at_def)
next
  case (Cons c cs)
  have "(\<forall>j. \<not> occurs_at sub (c # cs) j) \<longleftrightarrow> \<not> prefix sub (c # cs) \<and> (\<forall>j. \<not> occurs_at sub cs j)"
    by (metis occurs_at_0 occurs_at_Suc not0_implies_Suc)
  with Cons show ?case by (auto split: option.splits)
qed

lemma rfind0_Some_iff:
  "rfind0 sub s = Some i \<longleftrightarrow> occurs_at sub s i \<and> (\<forall>j>i. \<not> occurs_at sub s j)"
proof (induction s arbitrary: i)
  case Nil
  then show ?case by (auto simp: occurs_at_def)
next
  case (Cons c cs)
  show ?case
  proof (cases "rfind0 sub cs")
    case None
    then have no: "\<And>j. \<not> occurs_at sub cs j"
      by (simp add: rfind0_None_iff)
    have "occurs_at sub (c # cs) i \<longleftrightarrow> i = 0 \<and> prefix sub (c # cs)"
      using no by (cases i) (auto simp: occurs_at_0 occurs_at_Suc)
    moreover have "\<And>j. j > 0 \<Longrightarrow> \<not> occurs_at sub (c # cs) j"
      using no by (metis occurs_at_Suc gr0_implies_Suc)
    ultimately show ?thesis using None by auto
  next
    case (Some k)
    then have k: "occurs_at sub cs k" "\<And>j. j > k \<Longrightarrow> \<not> occurs_at sub cs j"
      using Cons.IH [of k] by auto
    show ?thesis
    proof (cases i)
      case 0
      have "occurs_at sub (c # cs) (Suc k)" using k(1) by (simp add: occurs_at_Suc)
      with 0 Some show ?thesis by auto
    next
      case (Suc i')
      have "(\<forall>j>Suc i'. \<not> occurs_at sub (c # cs) j) \<longleftrightarrow> (\<forall>j>i'. \<not> occurs_at sub cs j)"
        by (metis occurs_at_Suc Suc_less_eq Suc_lessE)
      with Suc Some Cons.IH [of i'] show ?thesis
        by (auto simp: occurs_at_Suc)
    qed
  qed
qed


lemma occurs_at_len: "occurs_at sub s i \<Longrightarrow> i + length sub \<le> length s"
  by (auto simp: occurs_at_def dest!: prefix_length_le)

lemma occurs_at_drop:
  "start \<le> length s \<Longrightarrow> occurs_at sub (drop start s) i = occurs_at sub s (start + i)"
  by (auto simp: occurs_at_def add.commute)

lemma prefix_take_iff: "prefix sub (take m u) \<longleftrightarrow> prefix sub u \<and> length sub \<le> m"
proof
  assume "prefix sub (take m u)"
  then show "prefix sub u \<and> length sub \<le> m"
    by (metis prefix_length_le length_take min.cobounded2 le_trans prefix_order.order_trans take_is_prefix)
next
  assume "prefix sub u \<and> length sub \<le> m"
  then show "prefix sub (take m u)"
    by (metis prefix_def take_all_iff take_append append_eq_conv_conj append_take_drop_id le_refl min.absorb1 take_take)
qed

lemma occurs_at_take:
  "occurs_at sub (take n t) i \<longleftrightarrow> i + length sub \<le> n \<and> occurs_at sub t i"
  by (auto simp: occurs_at_def drop_take prefix_take_iff dest: prefix_length_le)

lemma str_find_Some_iff:
  "str_find s sub start = Some i \<longleftrightarrow>
     start \<le> i \<and> occurs_at sub s i \<and> (\<forall>j. start \<le> j \<and> j < i \<longrightarrow> \<not> occurs_at sub s j)"
proof (cases "length s < start")
  case True
  then show ?thesis by (auto simp: str_find_def occurs_at_def)
next
  case False
  then have le: "start \<le> length s" by simp
  show ?thesis
  proof
    assume "str_find s sub start = Some i"
    then obtain k where k: "i = start + k" "find0 sub (drop start s) = Some k"
      using False by (auto simp: str_find_def)
    then have "occurs_at sub s (start + k)" "\<And>j. j < k \<Longrightarrow> \<not> occurs_at sub s (start + j)"
      using le by (auto simp: find0_Some_iff occurs_at_drop)
    then show "start \<le> i \<and> occurs_at sub s i \<and> (\<forall>j. start \<le> j \<and> j < i \<longrightarrow> \<not> occurs_at sub s j)"
      using k(1) by (metis le_add1 le_Suc_ex nat_add_left_cancel_less)
  next
    assume r: "start \<le> i \<and> occurs_at sub s i \<and> (\<forall>j. start \<le> j \<and> j < i \<longrightarrow> \<not> occurs_at sub s j)"
    then obtain k where k: "i = start + k" by (metis le_Suc_ex)
    have "find0 sub (drop start s) = Some k"
      using r k le by (auto simp: find0_Some_iff occurs_at_drop)
    then show "str_find s sub start = Some i"
      using False k by (simp add: str_find_def)
  qed
qed

lemma str_find_None_iff:
  "str_find s sub start = None \<longleftrightarrow> (\<forall>j. start \<le> j \<longrightarrow> \<not> occurs_at sub s j)"
proof (cases "length s < start")
  case True
  then show ?thesis by (auto simp: str_find_def occurs_at_def)
next
  case False
  then have le: "start \<le> length s" by simp
  have "(\<forall>j. \<not> occurs_at sub s (start + j)) \<longleftrightarrow> (\<forall>j. start \<le> j \<longrightarrow> \<not> occurs_at sub s j)"
    by (metis le_add1 le_Suc_ex)
  then show ?thesis
    using False le by (simp add: str_find_def find0_None_iff occurs_at_drop)
qed

lemma occurs_at_slice:
  assumes "start \<le> e" "e = min end (length s)"
  shows "occurs_at sub (take (e - start) (drop start s)) k \<longleftrightarrow>
           start + k + length sub \<le> end \<and> occurs_at sub s (start + k)"
proof -
  have le: "start \<le> length s" using assms by simp
  have "occurs_at sub s (start + k) \<Longrightarrow> start + k + length sub \<le> length s"
    by (rule occurs_at_len)
  then show ?thesis
    using assms le by (auto simp: occurs_at_take occurs_at_drop)
qed

lemma str_rfind_Some_iff:
  "str_rfind s sub start end = Some i \<longleftrightarrow>
     start \<le> i \<and> i + length sub \<le> end \<and> occurs_at sub s i \<and>
     (\<forall>j. i < j \<and> j + length sub \<le> end \<longrightarrow> \<not> occurs_at sub s j)"
proof (cases "min end (length s) < start")
  case True
  have "\<not> (start \<le> i \<and> i + length sub \<le> end \<and> occurs_at sub s i)"
    using True occurs_at_len [of sub s i] by auto
  with True show ?thesis by (auto simp: str_rfind_def Let_def)
next
  case False
  define e where "e = min end (length s)"
  have se: "start \<le> e" using False unfolding e_def by linarith
  note sl = occurs_at_slice [OF se e_def]
  show ?thesis
  proof
    assume "str_rfind s sub start end = Some i"
    then obtain k where k: "i = start + k" "rfind0 sub (take (e - start) (drop start s)) = Some k"
      using False by (auto simp: str_rfind_def Let_def e_def)
    from k(2) have a: "start + k + length sub \<le> end" "occurs_at sub s (start + k)"
      and b: "\<And>j. j > k \<Longrightarrow> \<not> (start + j + length sub \<le> end \<and> occurs_at sub s (start + j))"
      by (auto simp: rfind0_Some_iff sl)
    have "\<not> occurs_at sub s j" if "i < j" "j + length sub \<le> end" for j
    proof -
      from that k(1) obtain m where "j = start + m" "k < m"
        by (metis add_lessD1 le_Suc_ex less_or_eq_imp_le nat_add_left_cancel_less)
      with b [of m] that show ?thesis by auto
    qed
    with a k(1) show "start \<le> i \<and> i + length sub \<le> end \<and> occurs_at sub s i \<and>
       (\<forall>j. i < j \<and> j + length sub \<le> end \<longrightarrow> \<not> occurs_at sub s j)"
      by auto
  next
    assume r: "start \<le> i \<and> i + length sub \<le> end \<and> occurs_at sub s i \<and>
       (\<forall>j. i < j \<and> j + length sub \<le> end \<longrightarrow> \<not> occurs_at sub s j)"
    then obtain k where k: "i = start + k" by (metis le_Suc_ex)
    have "rfind0 sub (take (e - start) (drop start s)) = Some k"
      using r k by (auto simp: rfind0_Some_iff sl)
    then show "str_rfind s sub start end = Some i"
      using False k by (simp add: str_rfind_def Let_def e_def)
  qed
qed

lemma str_rfind_None_iff:
  "str_rfind s sub start end = None \<longleftrightarrow>
     (\<forall>j. start \<le> j \<and> j + length sub \<le> end \<longrightarrow> \<not> occurs_at sub s j)"
proof (cases "min end (length s) < start")
  case True
  have "\<not> (start \<le> j \<and> j + length sub \<le> end \<and> occurs_at sub s j)" for j
    using True occurs_at_len [of sub s j] by auto
  with True show ?thesis by (auto simp: str_rfind_def Let_def)
next
  case False
  define e where "e = min end (length s)"
  have se: "start \<le> e" using False unfolding e_def by linarith
  note sl = occurs_at_slice [OF se e_def]
  have "(\<forall>k. \<not> (start + k + length sub \<le> end \<and> occurs_at sub s (start + k))) \<longleftrightarrow>
        (\<forall>j. start \<le> j \<and> j + length sub \<le> end \<longrightarrow> \<not> occurs_at sub s j)"
    by (metis le_add1 le_Suc_ex)
  then show ?thesis
    using False by (simp add: str_rfind_def Let_def rfind0_None_iff sl flip: e_def)
qed

lemma occurs_at_split:
  "occurs_at sub s i \<Longrightarrow> s = take i s @ sub @ drop (i + length sub) s"
  by (metis occurs_at_def prefix_def append_take_drop_id append_eq_conv_conj drop_drop add.commute)

lemma occurs_at_append: "occurs_at sub (a @ sub @ b) (length a)"
  by (simp add: occurs_at_def)

lemma occurs_at_iff_split:
  "occurs_at sub s i \<longleftrightarrow> (\<exists>a b. s = a @ sub @ b \<and> length a = i)"
proof
  assume o: "occurs_at sub s i"
  then have "i \<le> length s" by (simp add: occurs_at_def)
  with occurs_at_split [OF o] show "\<exists>a b. s = a @ sub @ b \<and> length a = i"
    by (metis length_take min.absorb2)
next
  assume "\<exists>a b. s = a @ sub @ b \<and> length a = i"
  then show "occurs_at sub s i" using occurs_at_append by auto
qed

lemma copy2_frame:
  "copy2 src dst w = (w', r) \<Longrightarrow>
     pages w' = pages w \<and> tmp w' = tmp w \<and> report_file w' = report_file w \<and>
     denied w' = denied w \<and> warnings w' = warnings w"
  by (auto simp: copy2_def split: option.splits if_splits)

lemma copy_images_frame:
  "copy_images rp slug l n w = (w', r) \<Longrightarrow>
     pages w' = pages w \<and> tmp w' = tmp w \<and> report_file w' = report_file w \<and>
     denied w' = denied w \<and> warnings w' = warnings w"
proof (induction l arbitrary: n w)
  case Nil
  then show ?case by simp
next
  case (Cons x l)
  obtain src_file new_name where x: "x = (src_file, new_name)" by (cases x)
  obtain w1 r1 where c: "copy2 src_file (img_path rp slug new_name) w = (w1, r1)"
    by (cases "copy2 src_file (img_path rp slug new_name) w")
  show ?case
  proof (cases r1)
    case (Inl e)
    with Cons.prems x c copy2_frame [OF c] show ?thesis by simp
  next
    case (Inr m)
    with Cons.prems x c have "copy_images rp slug l (n + m) w1 = (w', r)" by simp
    from Cons.IH [OF this] copy2_frame [OF c] show ?thesis by simp
  qed
qed

lemma find_close_idx_Some:
  assumes "find_close_idx page cs = Some ci"
  shows "cs \<le> ci \<and> occurs_at close_div page ci"
  using assms
  by (auto simp: find_close_idx_def close_before_link_def str_find_Some_iff str_rfind_Some_iff
           split: option.splits)

lemma locate_region_Region:
  assumes "locate_region page = Region cs ci"
  shows "\<exists>a b c. page = a @ open_tag @ b @ close_div @ c \<and>
           (\<forall>a' b'. page = a' @ open_tag @ b' \<longrightarrow> length a \<le> length a') \<and>
           cs = length (a @ open_tag) \<and> ci = length (a @ open_tag @ b)"
proof -
  from assms obtain oi where oi: "str_find page open_tag 0 = Some oi"
    and cs: "cs = oi + length open_tag" and fc: "find_close_idx page cs = Some ci"
    by (auto simp: locate_region_def Let_def split: option.splits)
  from oi have o1: "occurs_at open_tag page oi" and o2: "\<And>j. j < oi \<Longrightarrow> \<not> occurs_at open_tag page j"
    by (auto simp: str_find_Some_iff)
  from find_close_idx_Some [OF fc] have le: "cs \<le> ci" and c1: "occurs_at close_div page ci"
    by auto
  define a where "a = take oi page"
  define b where "b = take (ci - cs) (drop cs page)"
  define c where "c = drop (ci + length close_div) page"
  have la: "length a = oi" using o1 by (simp add: a_def occurs_at_def)
  have p1: "page = a @ open_tag @ drop cs page"
    using occurs_at_split [OF o1] by (simp add: a_def cs)
  have cil: "ci + length close_div \<le> length page" using c1 by (rule occurs_at_len)
  have "drop cs page = b @ drop ci page"
    using le by (metis b_def append_take_drop_id drop_drop le_add_diff_inverse2)
  moreover have "drop ci page = close_div @ c"
    using c1 by (metis c_def occurs_at_def prefix_def append_eq_conv_conj drop_drop add.commute)
  ultimately have p2: "page = a @ open_tag @ b @ close_div @ c" using p1 by simp
  have lb: "length b = ci - cs" using cil le by (simp add: b_def)
  have first: "length a \<le> length a'" if "page = a' @ open_tag @ b'" for a' b'
  proof (rule ccontr)
    assume "\<not> length a \<le> length a'"
    then have "length a' < oi" using la by simp
    from o2 [OF this] that show False using occurs_at_append by auto
  qed
  show ?thesis
    using p2 first la lb le cs by (intro exI [of _ a] exI [of _ b] exI [of _ c]) auto
qed

lemma first_at_iff: "first_at sub s start i \<longleftrightarrow> str_find s sub start = Some i"
  by (simp add: first_at_def str_find_Some_iff)

lemma last_within_iff: "last_within sub s start end i \<longleftrightarrow> str_rfind s sub start end = Some i"
  by (simp add: last_within_def str_rfind_Some_iff)

lemma none_from_iff: "none_from sub s start \<longleftrightarrow> str_find s sub start = None"
  by (simp add: none_from_def str_find_None_iff)

lemma none_within_iff: "none_within sub s start end \<longleftrightarrow> str_rfind s sub start end = None"
  by (simp add: none_within_def str_rfind_None_iff)

section \<open>Facts about \<^verbatim>\<open>read_text\<close>\<close>

lemma read_text_id: "CHR 0x0D \<notin> set s \<Longrightarrow> read_text s = s"
  by (induction s rule: read_text.induct) auto

lemma read_text_no_cr: "CHR 0x0D \<notin> set (read_text s)"
  by (induction s rule: read_text.induct) auto

lemma prefix_read_text:
  "CHR 0x0D \<notin> set m \<Longrightarrow> CHR 0x0A \<notin> set m \<Longrightarrow> prefix m (read_text s) = prefix m s"
proof (induction s arbitrary: m rule: read_text.induct)
  case 1
  then show ?case by simp
next
  case (2 c)
  then show ?case by (cases m) auto
next
  case (3 c d cs)
  show ?case
  proof (cases m)
    case Nil
    then show ?thesis by simp
  next
    case (Cons a m')
    with "3.prems" have a: "a \<noteq> CHR 0x0D" "a \<noteq> CHR 0x0A"
      and m': "CHR 0x0D \<notin> set m'" "CHR 0x0A \<notin> set m'"
      by auto
    show ?thesis
    proof (cases "c = CHR 0x0D")
      case True
      with Cons a show ?thesis by auto
    next
      case False
      with "3.IH"(3) [OF _ False m'] Cons show ?thesis by auto
    qed
  qed
qed

lemma sublist_read_text:
  "CHR 0x0D \<notin> set m \<Longrightarrow> CHR 0x0A \<notin> set m \<Longrightarrow> m \<noteq> [] \<Longrightarrow>
     sublist m (read_text s) = sublist m s"
proof (induction s rule: read_text.induct)
  case 1
  then show ?case by simp
next
  case (2 c)
  then show ?case by (cases m) (auto simp: sublist_Cons_right)
next
  case (3 c d cs)
  obtain a m' where m: "m = a # m'" using "3.prems"(3) by (cases m) auto
  with "3.prems" have a: "a \<noteq> CHR 0x0D" "a \<noteq> CHR 0x0A" by auto
  show ?case
  proof (cases "c = CHR 0x0D")
    case c: True
    show ?thesis
    proof (cases "d = CHR 0x0A")
      case True
      with c "3.IH"(1) "3.prems" m a show ?thesis by (simp add: sublist_Cons_right)
    next
      case False
      with c "3.IH"(2) "3.prems" m a show ?thesis by (simp add: sublist_Cons_right)
    qed
  next
    case False
    have "prefix m (read_text (c # d # cs)) = prefix m (c # d # cs)"
      using "3.prems" by (intro prefix_read_text)
    with False "3.IH"(3) "3.prems" show ?thesis by (simp add: sublist_Cons_right)
  qed
qed

lemma marker_read_text: "str_contains lo_marker (read_text s) = str_contains lo_marker s"
  unfolding str_contains_def by (rule sublist_read_text) (simp_all add: lo_marker_def)

section \<open>Facts about the rename map and substitution\<close>

lemma dict_set_fresh: "k \<notin> fst ` set m \<Longrightarrow> dict_set k v m = m @ [(k, v)]"
  by (induction m) auto

lemma assign_names_distinct:
  "distinct xs \<Longrightarrow> set xs \<inter> fst ` set m = {} \<Longrightarrow>
     assign_names i xs m = m @ map (\<lambda>(j, n). (n, img_name j n)) (List.enumerate i xs)"
proof (induction xs arbitrary: i m)
  case Nil
  then show ?case by simp
next
  case (Cons x xs)
  have fresh: "x \<notin> fst ` set m" using Cons.prems by auto
  have "set xs \<inter> fst ` set (m @ [(x, img_name i x)]) = {}"
    using Cons.prems by auto
  with Cons.IH [of "m @ [(x, img_name i x)]" "Suc i"] Cons.prems fresh
  show ?case by (simp add: dict_set_fresh)
qed

lemma sort_cong_mset: "mset xs = mset ys \<Longrightarrow> sort xs = sort (ys :: string list)"
  by (metis properties_for_sort sorted_sort mset_sort)

lemma ex_map: "build_img_map [''picture2.png'', ''picture1.jpg''] =
    [(''picture1.jpg'', ''img001.jpg''), (''picture2.png'', ''img002.png'')]"
  by code_simp

lemma ex_preclean:
  "re_sub m_column_count (\<lambda>_ _. []) (re_sub m_style (\<lambda>_ _. []) (re_sub m_font_size (\<lambda>_ _. [])
     (re_sub m_class (\<lambda>_ _. []) two_images_body))) = two_images_body"
  by code_simp

lemma re_sub_pieces: "re_sub m repl s = concat (map (render repl) (pieces m s))"
  by (induction m repl s rule: re_sub.induct) (auto split: option.splits)

lemma dropWhile_hd: "xs \<noteq> [] \<Longrightarrow> \<not> P (hd xs) \<Longrightarrow> dropWhile P xs = xs"
  by (cases xs) auto

lemma str_strip_id:
  "s \<noteq> [] \<Longrightarrow> \<not> is_space (hd s) \<Longrightarrow> \<not> is_space (last s) \<Longrightarrow> str_strip s = s"
  by (simp add: str_strip_def dropWhile_hd hd_rev)

lemma ex_pieces:
  \<open>pieces m_img two_images_body =
     [Kept CHR ''<'', Kept CHR ''p'', Kept CHR ''>'',
      Hit ''<img src="picture2.png" name="Image1" width="10">'' ''src="picture2.png" name="Image1" width="10"'',
      Kept CHR '' '',
      Hit ''<img src="picture1.jpg">'' ''src="picture1.jpg"'',
      Kept CHR ''<'', Kept CHR ''/'', Kept CHR ''p'', Kept CHR ''>'']\<close>
  by code_simp

lemma ex_tag2:
  \<open>re_search m_src ''src="picture2.png" name="Image1" width="10"'' = Some (18, ''picture2.png'')\<close>
  \<open>re_sub m_attr (\<lambda>_ _. []) ''src="picture2.png" name="Image1" width="10"'' = ''src="picture2.png"''\<close>
  \<open>pieces m_src ''src="picture2.png"'' = [Hit ''src="picture2.png"'' ''picture2.png'']\<close>
  \<open>basename ''picture2.png'' = ''picture2.png''\<close>
  by code_simp+

lemma ex_tag1:
  \<open>re_search m_src ''src="picture1.jpg"'' = Some (18, ''picture1.jpg'')\<close>
  \<open>re_sub m_attr (\<lambda>_ _. []) ''src="picture1.jpg"'' = ''src="picture1.jpg"''\<close>
  \<open>pieces m_src ''src="picture1.jpg"'' = [Hit ''src="picture1.jpg"'' ''picture1.jpg'']\<close>
  \<open>basename ''picture1.jpg'' = ''picture1.jpg''\<close>
  by code_simp+

lemma ex_fragment:
  assumes "unquote L ''picture1.jpg'' = ''picture1.jpg''"  "unquote L ''picture2.png'' = ''picture2.png''"
   "tag_stripper L [''font''] two_images_body = two_images_body"
  shows \<open>fst (clean_lo_html L two_images_body [''picture2.png'', ''picture1.jpg''] slug) =
     ''<p><img src="img/'' @ slug @ ''/img002.png"> <img src="img/'' @ slug @ ''/img001.jpg"></p>''\<close>
proof -
  have "fst (clean_lo_html L two_images_body [''picture2.png'', ''picture1.jpg''] slug) =
     re_sub m_img (rewrite_img L slug [(''picture1.jpg'', ''img001.jpg''), (''picture2.png'', ''img002.png'')]) two_images_body"
    using assms(3) by (simp add: clean_lo_html_def Let_def ex_map ex_preclean)
  also have \<open>\<dots> = ''<p><img src="img/'' @ slug @ ''/img002.png"> <img src="img/'' @ slug @ ''/img001.jpg"></p>''\<close>
    using assms(1,2)
    by (simp add: re_sub_pieces [of m_img] ex_pieces rewrite_img_def ex_tag1 ex_tag2 Let_def
          re_sub_pieces [of m_src] quote_def str_strip_id is_space_def
          del: re_search.simps re_sub.simps pieces.simps)
  finally show ?thesis .
qed

section \<open>Facts about \<^verbatim>\<open>convert_one\<close>\<close>

lemma finally_block_result:
  "finally_block d r w = (w', r') \<Longrightarrow>
     error r' = error r \<and> skipped r' = skipped r \<and> image_files r' = image_files r \<and>
     body_html r' = body_html r \<and> theme r' = theme r \<and> source r' = source r \<and>
     reader r' = reader r \<and> reader_slug r' = reader_slug r \<and> num_images r' = num_images r \<and>
     images r' = images r"
  by (auto simp: finally_block_def split: if_splits)

lemma inspect_output_cases:
  assumes "error r = None" "\<not> skipped r" "image_files r = None"
    and "r' = inspect_output L d entries rc err r"
  shows "(error r' \<noteq> None \<and> \<not> skipped r' \<and> \<not> has_image_files r') \<or>
         (error r' = None \<and> skipped r' \<and> \<not> has_image_files r') \<or>
         (error r' = None \<and> \<not> skipped r' \<and> has_image_files r')"
  using assms
  by (auto simp: inspect_output_def has_image_files_def Let_def split: list.splits)


lemma convert_one_unfold:
  "convert_one E args w = (w', r) \<Longrightarrow> run = converter E (j_theme args) (j_source args) \<Longrightarrow>
   r0 = \<lparr>theme = j_theme args, source = j_source args, reader = j_reader args,
             reader_slug = path_stem (j_reader args), images = [], error = None,
             skipped = False, body_html = None, image_files = None, num_images = None,
             tmpdir = None\<rparr> \<Longrightarrow>
   (w', r) = finally_block (run_tmpdir run)
      (case outcome run of
         TimeoutExpired \<Rightarrow> r0\<lparr>error := Some ''Timeout after 60s''\<rparr>
       | Raised msg \<Rightarrow> r0\<lparr>error := Some msg\<rparr>
       | Completed rc err \<Rightarrow> inspect_output (lib E) (run_tmpdir run) (produced run) rc err r0)
      (write_tmp (run_tmpdir run) (produced run) w)"
  by (auto simp: convert_one_def Let_def split: proc_outcome.splits)

section \<open>Facts about the work list\<close>

lemma split_slash_nonempty: "split_slash s \<noteq> []"
  by (induction s) (auto split: list.splits)

lemma split_slash_append:
  "split_slash (a @ CHR ''/'' # b) = split_slash a @ split_slash b"
proof (induction a)
  case Nil
  then show ?case by simp
next
  case (Cons c a)
  then show ?case
    using split_slash_nonempty [of a] by (auto split: list.splits)
qed

lemma path_name_join:
  assumes "path_name b \<noteq> []"
  shows "path_name (a @ ''/'' @ b) = path_name b"
proof -
  let ?P = "\<lambda>c. c \<noteq> [] \<and> c \<noteq> ''.''"
  from assms obtain q qs where q: "filter ?P (split_slash b) = q # qs"
    by (auto simp: path_name_def split: list.splits)
  have "filter ?P (split_slash (a @ ''/'' @ b)) = filter ?P (split_slash a) @ q # qs"
    using split_slash_append [of a b] q by simp
  then show ?thesis
    using q by (cases "filter ?P (split_slash a)") (simp_all add: path_name_def)
qed

lemma path_suffix_source_path:
  "path_name src \<noteq> [] \<Longrightarrow> path_suffix (source_path E th src) = path_suffix src"
proof -
  assume a: "path_name src \<noteq> []"
  have "path_name (source_path E th src) = path_name src"
    using path_name_join [OF a, of "archive_root E @ ''/'' @ th @ ''/files''"]
    by (simp add: source_path_def)
  then show ?thesis by (simp add: path_suffix_def)
qed

lemma prepare_work_ok:
  "workers \<noteq> 0 \<or> \<not> (\<exists>item \<in> set items. convertible E item) \<Longrightarrow>
     \<exists>work. prepare_work E workers n i items = Inr work \<and>
       map (\<lambda>j. ((j_theme j, j_source j), j_reader j)) work = filter (convertible E) items"
proof (induction items arbitrary: i)
  case Nil
  then show ?case by simp
next
  case (Cons item items)
  obtain th src rd where item: "item = ((th, src), rd)" by (metis prod.collapse)
  from Cons.prems have "workers \<noteq> 0 \<or> \<not> (\<exists>item \<in> set items. convertible E item)" by auto
  from Cons.IH [OF this, of "Suc i"] obtain work where
    w: "prepare_work E workers n (Suc i) items = Inr work"
       "map (\<lambda>j. ((j_theme j, j_source j), j_reader j)) work = filter (convertible E) items"
    by blast
  show ?case
  proof (cases "convertible E item")
    case True
    with Cons.prems have "workers \<noteq> 0" by auto
    with True w item show ?thesis by simp
  next
    case False
    with w item show ?thesis by simp
  qed
qed

lemma prepare_work_zero:
  "\<exists>item \<in> set items. convertible E item \<Longrightarrow> prepare_work E 0 n i items = Inl ZeroDivisionError"
proof (induction items arbitrary: i)
  case Nil
  then show ?case by simp
next
  case (Cons item items)
  obtain th src rd where item: "item = ((th, src), rd)" by (metis prod.collapse)
  show ?case
  proof (cases "convertible E item")
    case True
    with item show ?thesis by simp
  next
    case False
    with Cons.prems have "\<exists>item \<in> set items. convertible E item" by auto
    from Cons.IH [OF this] False item show ?thesis by simp
  qed
qed

lemma prepare_work_Inr:
  assumes "prepare_work E workers n i items = Inr work"
  shows "map (\<lambda>j. ((j_theme j, j_source j), j_reader j)) work = filter (convertible E) items"
proof -
  have "workers \<noteq> 0 \<or> \<not> (\<exists>item \<in> set items. convertible E item)"
    using assms prepare_work_zero [of items E n i] by (cases "workers = 0") fastforce+
  from prepare_work_ok [OF this, of n i] assms show ?thesis by auto
qed

lemma filter_processed_Inr:
  "filter_processed w m = Inr (f, k) \<Longrightarrow>
     f = filter (\<lambda>(key, rd). \<exists>c. pages w rd = Some c \<and> \<not> str_contains lo_marker c) m \<and>
     k = length (filter (\<lambda>(key, rd). \<exists>c. pages w rd = Some c \<and> str_contains lo_marker c) m) \<and>
     (\<forall>(key, rd) \<in> set m. pages w rd \<noteq> None)"
proof (induction m arbitrary: f k)
  case Nil
  then show ?case by simp
next
  case (Cons item m)
  obtain key rd where item: "item = (key, rd)" by (cases item)
  from Cons.prems item obtain c where c: "pages w rd = Some c"
    by (auto split: option.splits)
  from Cons.prems item c obtain f' k' where r: "filter_processed w m = Inr (f', k')"
    by (auto split: sum.splits)
  from Cons.IH [OF r] Cons.prems item c r show ?case
    by (auto simp: marker_read_text split: if_splits)
qed

lemma work_list_Inr:
  assumes "work_list E a m w = Inr work"
  shows "\<exists>f. set f \<subseteq> set m \<and>
           (\<not> arg_force a \<longrightarrow>
              f = filter (\<lambda>(key, rd). \<exists>c. pages w rd = Some c \<and> \<not> str_contains lo_marker c) m) \<and>
           (arg_force a \<longrightarrow> f = m) \<and>
           map (\<lambda>j. ((j_theme j, j_source j), j_reader j)) work =
             filter (convertible E) (sort_key fst f)"
proof (cases "arg_force a")
  case True
  with assms obtain work' where "prepare_work E (arg_workers a) (length m) 0 (sort_key fst m) = Inr work'"
    and "work' = work"
    by (auto simp: work_list_def split: sum.splits if_splits)
  with prepare_work_Inr [of E "arg_workers a" "length m" 0 "sort_key fst m" work] True
  show ?thesis by (intro exI [of _ m]) auto
next
  case False
  with assms obtain f k where fp: "filter_processed w m = Inr (f, k)"
    and "prepare_work E (arg_workers a) (length f) 0 (sort_key fst f) = Inr work"
    by (auto simp: work_list_def split: sum.splits if_splits)
  with prepare_work_Inr [of E "arg_workers a" "length f" 0 "sort_key fst f" work]
    filter_processed_Inr [OF fp] False
  show ?thesis by (intro exI [of _ f]) auto
qed

section \<open>Facts about the patch phase\<close>

lemma map_of_dict_set: "map_of (dict_set k v kvs) = (map_of kvs)(k \<mapsto> v)"
  by (induction kvs) (auto simp: fun_eq_iff)

lemma sum_dict_set_new:
  "map_of kvs k = None \<Longrightarrow>
     sum_list (map (\<lambda>(th, s). f s) (dict_set k v kvs)) = sum_list (map (\<lambda>(th, s). f s) kvs) + (f v :: nat)"
  by (induction kvs) (auto split: if_splits)

lemma sum_dict_set_old:
  "map_of kvs k = Some s \<Longrightarrow>
     sum_list (map (\<lambda>(th, s). f s) (dict_set k v kvs)) + f s =
       sum_list (map (\<lambda>(th, s). f s) kvs) + (f v :: nat)"
  by (induction kvs) (auto split: if_splits)

lemma stats_of_dict_set:
  "stats_of (dict_set k v kvs) th = (if th = k then v else stats_of kvs th)"
  by (simp add: stats_of_def map_of_dict_set)

text \<open>One successful step of the patch phase adds one to the theme's counter.\<close>

lemma patch_one_Inr:
  assumes "patch_one dry r stats w = (w', Inr stats')"
  shows "\<exists>w1 b a. update_reader_page r dry w = (w1, Inr (b, a)) \<and> w' = cleanup r w1 \<and>
           sum_list (map (\<lambda>(th, s). ts_updated s) stats') =
             sum_list (map (\<lambda>(th, s). ts_updated s) stats) + 1 \<and>
           (\<forall>th. ts_updated (stats_of stats' th) =
              ts_updated (stats_of stats th) + (if th = theme r then 1 else 0))"
proof -
  define stats1 where "stats1 = (if map_of stats (theme r) = None
      then dict_set (theme r) zero_stats stats else stats)"
  from assms obtain w1 b a where u: "update_reader_page r dry w = (w1, Inr (b, a))"
    by (auto simp: patch_one_def Let_def split: prod.splits sum.splits)
  define s where "s = stats_of stats1 (theme r)"
  define s' where "s' = s\<lparr>ts_updated := ts_updated s + 1,
        ts_images := ts_images s + (case num_images r of Some n \<Rightarrow> n | None \<Rightarrow> 0),
        ts_before := ts_before s + b, ts_after := ts_after s + a\<rparr>"
  from assms u have w': "w' = cleanup r w1" and st: "stats' = dict_set (theme r) s' stats1"
    by (auto simp: patch_one_def Let_def stats1_def s_def s'_def)
  have so: "stats_of stats1 th = stats_of stats th" for th
    by (auto simp: stats1_def stats_of_dict_set) (simp add: stats_of_def)
  have m1: "map_of stats1 (theme r) = Some s"
    by (auto simp: stats1_def s_def stats_of_def map_of_dict_set)
  have sum1: "sum_list (map (\<lambda>(th, s). ts_updated s) stats1) =
      sum_list (map (\<lambda>(th, s). ts_updated s) stats)"
    by (simp add: stats1_def sum_dict_set_new zero_stats_def)
  from sum_dict_set_old [OF m1, of ts_updated s'] sum1
  have "sum_list (map (\<lambda>(th, s). ts_updated s) stats') =
             sum_list (map (\<lambda>(th, s). ts_updated s) stats) + 1"
    by (simp add: st s'_def)
  moreover have "ts_updated (stats_of stats' th) =
              ts_updated (stats_of stats th) + (if th = theme r then 1 else 0)" for th
    using so by (simp add: st stats_of_dict_set s'_def s_def)
  ultimately show ?thesis using u w' by blast
qed

lemma patch_all_Inr:
  "patch_all dry rs stats w = (w', Inr stats') \<Longrightarrow>
     sum_list (map (\<lambda>(th, s). ts_updated s) stats') =
       sum_list (map (\<lambda>(th, s). ts_updated s) stats) + length rs \<and>
     (\<forall>th. ts_updated (stats_of stats' th) =
        ts_updated (stats_of stats th) + length (filter (\<lambda>r. theme r = th) rs))"
proof (induction rs arbitrary: stats w)
  case Nil
  then show ?case by simp
next
  case (Cons r rs)
  from Cons.prems obtain w1 stats1 where p: "patch_one dry r stats w = (w1, Inr stats1)"
    and rest: "patch_all dry rs stats1 w1 = (w', Inr stats')"
    by (auto split: prod.splits sum.splits)
  from patch_one_Inr [OF p] Cons.IH [OF rest] show ?case by auto
qed


lemma main_Finished:
  assumes "main E a m w = (w', Finished rep)"
  shows "\<exists>work w1 all w2 stats.
           work_list E a m w = Inr work \<and> convert_all E work w = (w1, all) \<and>
           filter with_images all \<noteq> [] \<and>
           patch_all (arg_dry_run a) (sort_key reader (filter with_images all)) [] w1 = (w2, Inr stats) \<and>
           rep = make_report E a stats all (filter with_images all) \<and>
           w' = w2\<lparr>report_file := Some rep\<rparr>"
  using assms
  by (auto simp: main_def Let_def split: sum.splits prod.splits if_splits)

lemma length_filter_sort_key:
  "length (filter P (sort_key f xs)) = length (filter P xs)"
  by (metis mset_filter mset_sort size_mset)

lemma example_abort_run:
  "snd (main ex_env plain_run ex_mapping (start_world no_container_page)) = Finished aborted_report \<and>
   pages (fst (main ex_env plain_run ex_mapping (start_world no_container_page)))
     ''/arc/01-letters/read/a.html'' = Some no_container_page"
  by code_simp

section \<open>What each step leaves unchanged\<close>


lemma update_reader_page_dry:
  assumes "update_reader_page r True w = (w', out)"
  shows "w' = w"
  using assms by (auto simp: update_reader_page_def Let_def split: option.splits sum.splits)

lemma update_reader_page_Region:
  assumes "pages w (reader r) = Some page" "body_html r = Some body"
    "locate_region (read_text page) = Region cs ci"
    "copy_images (reader r) (reader_slug r) (case image_files r of None \<Rightarrow> [] | Some l \<Rightarrow> l) 0 w = (w1, r1)"
  shows "update_reader_page r False w =
     (case r1 of
        Inl e \<Rightarrow> (w1, Inl e)
      | Inr t \<Rightarrow> (w1\<lparr>pages := (pages w1)(reader r \<mapsto> new_content (read_text page) body cs ci)\<rparr>,
                  Inr (utf8_len page, utf8_len (new_content (read_text page) body cs ci) + t)))"
  using assms by (simp add: update_reader_page_def Let_def split: sum.splits)


lemma cleanup_frame:
  "pages (cleanup r w) = pages w \<and> assets (cleanup r w) = assets w \<and>
   report_file (cleanup r w) = report_file w \<and> denied (cleanup r w) = denied w \<and>
   warnings (cleanup r w) = warnings w"
  by (simp add: cleanup_def rmtree_def split: option.splits list.splits)



lemma finally_block_frame:
  "finally_block d r w = (w', r') \<Longrightarrow>
     pages w' = pages w \<and> assets w' = assets w \<and> report_file w' = report_file w \<and>
     denied w' = denied w \<and> warnings w' = warnings w"
  by (auto simp: finally_block_def rmtree_def split: if_splits)

lemma convert_one_frame:
  assumes "convert_one E j w = (w', r)"
  shows "pages w' = pages w \<and> assets w' = assets w \<and> report_file w' = report_file w \<and>
     denied w' = denied w \<and> warnings w' = warnings w"
proof -
  from convert_one_unfold [OF assms refl refl]
  obtain r1 where "finally_block (run_tmpdir (converter E (j_theme j) (j_source j))) r1
      (write_tmp (run_tmpdir (converter E (j_theme j) (j_source j)))
         (produced (converter E (j_theme j) (j_source j))) w) = (w', r)"
    by metis
  from finally_block_frame [OF this] show ?thesis by (simp add: write_tmp_def)
qed

lemma convert_all_frame:
  "convert_all E js w = (w', rs) \<Longrightarrow>
     pages w' = pages w \<and> assets w' = assets w \<and> report_file w' = report_file w \<and>
     denied w' = denied w \<and> warnings w' = warnings w"
proof (induction js arbitrary: w w' rs)
  case Nil
  then show ?case by simp
next
  case (Cons j js)
  obtain w1 r where c: "convert_one E j w = (w1, r)" by (cases "convert_one E j w")
  obtain w2 rs' where a: "convert_all E js w1 = (w2, rs')" by (cases "convert_all E js w1")
  from Cons.prems c a have "w' = w2" by simp
  with Cons.IH [OF a] convert_one_frame [OF c] show ?case by simp
qed

lemma main_cases:
  assumes "main E a m w = (w', out)"
  shows "(\<exists>e. work_list E a m w = Inl e \<and> w' = w \<and> out = Crashed e) \<or>
         (\<exists>work w1 all. work_list E a m w = Inr work \<and> convert_all E work w = (w1, all) \<and>
            ((filter with_images all = [] \<and> w' = w1 \<and> out = NothingToUpdate) \<or>
             (filter with_images all \<noteq> [] \<and>
              (\<exists>w2 res. patch_all (arg_dry_run a) (sort_key reader (filter with_images all)) [] w1 = (w2, res) \<and>
                 ((\<exists>e. res = Inl e \<and> w' = w2 \<and> out = Crashed e) \<or>
                  (\<exists>stats rep. res = Inr stats \<and> rep = make_report E a stats all (filter with_images all) \<and>
                     w' = w2\<lparr>report_file := Some rep\<rparr> \<and> out = Finished rep))))))"
  using assms
  by (auto simp: main_def Let_def split: sum.splits prod.splits if_splits)

section \<open>Facts about temporary directories\<close>













section \<open>Facts about a second run\<close>

lemma marker_in_new_content: "str_contains lo_marker (new_content page body cs ci)"
  unfolding str_contains_def new_content_def sublist_def
  by (rule exI [of _ "take cs page @ nl"], rule exI [of _ "nl @ body @ nl @ drop ci page"]) simp

lemma update_reader_page_no_region:
  assumes "update_reader_page r dry w = (w', out)"
    and "\<And>page cs ci. pages w (reader r) = Some page \<Longrightarrow> locate_region (read_text page) \<noteq> Region cs ci"
  shows "pages w' = pages w \<and> assets w' = assets w"
proof (cases dry)
  case True
  with assms(1) update_reader_page_dry [of r w w' out] show ?thesis by simp
next
  case False
  show ?thesis
  proof (cases "pages w (reader r)")
    case None
    with assms(1) show ?thesis by (simp add: update_reader_page_def)
  next
    case (Some page)
    show ?thesis
    proof (cases "body_html r")
      case None
      with assms(1) Some False show ?thesis by (simp add: update_reader_page_def Let_def)
    next
      case b: (Some body)
      show ?thesis
      proof (cases "locate_region (read_text page)")
        case (Region cs ci)
        with assms(2) [OF Some, of cs ci] show ?thesis by simp
      qed (use assms(1) Some False b in \<open>auto simp: update_reader_page_def Let_def warn_def\<close>)
    qed
  qed
qed

lemma update_reader_page_pages:
  assumes "update_reader_page r dry w = (w', out)"
  shows "pages w' = pages w \<or>
    (\<exists>page body cs ci. pages w (reader r) = Some page \<and> locate_region (read_text page) = Region cs ci \<and>
       pages w' = (pages w)(reader r \<mapsto> new_content (read_text page) body cs ci))"
proof (cases "\<exists>page cs ci. pages w (reader r) = Some page \<and> locate_region (read_text page) = Region cs ci \<and> \<not> dry \<and> body_html r \<noteq> None")
  case True
  then obtain page cs ci body where pg: "pages w (reader r) = Some page" "body_html r = Some body"
    "locate_region (read_text page) = Region cs ci" and nd: "\<not> dry"
    by auto
  obtain w1 r1 where ci: "copy_images (reader r) (reader_slug r)
      (case image_files r of None \<Rightarrow> [] | Some l \<Rightarrow> l) 0 w = (w1, r1)"
    by (cases "copy_images (reader r) (reader_slug r)
      (case image_files r of None \<Rightarrow> [] | Some l \<Rightarrow> l) 0 w")
  from update_reader_page_Region [OF pg ci] assms nd
  have "w' = w1 \<or> w' = w1\<lparr>pages := (pages w1)(reader r \<mapsto> new_content (read_text page) body cs ci)\<rparr>"
    by (cases r1) auto
  with copy_images_frame [OF ci]
  have "pages w' = pages w \<or> pages w' = (pages w)(reader r \<mapsto> new_content (read_text page) body cs ci)"
    by (elim disjE; simp)
  with pg show ?thesis by blast
next
  case False
  have "pages w' = pages w"
  proof (cases dry)
    case True
    with assms update_reader_page_dry [of r w w' out] show ?thesis by simp
  next
    case nd: False
    show ?thesis
    proof (cases "pages w (reader r)")
      case None
      with assms show ?thesis by (simp add: update_reader_page_def)
    next
      case (Some page)
      show ?thesis
      proof (cases "body_html r")
        case None
        with assms Some nd show ?thesis by (simp add: update_reader_page_def Let_def)
      next
        case b: (Some body)
        show ?thesis
        proof (cases "locate_region (read_text page)")
          case (Region cs ci)
          with False Some nd b show ?thesis by simp
        qed (use assms Some nd b in \<open>auto simp: update_reader_page_def Let_def warn_def\<close>)
      qed
    qed
  qed
  then show ?thesis by simp
qed

lemma patch_one_pages:
  assumes "patch_one dry r stats w = (w', out)"
  shows "pages w' = pages w \<or>
    (\<exists>page body cs ci. pages w (reader r) = Some page \<and> locate_region (read_text page) = Region cs ci \<and>
       pages w' = (pages w)(reader r \<mapsto> new_content (read_text page) body cs ci))"
proof -
  obtain w1 o1 where u: "update_reader_page r dry w = (w1, o1)"
    by (cases "update_reader_page r dry w")
  from assms u have "pages w' = pages w1"
    by (cases o1) (auto simp: patch_one_def Let_def cleanup_frame)
  with update_reader_page_pages [OF u] show ?thesis by simp
qed

lemma patch_one_marked:
  assumes "patch_one dry r stats w = (w', out)"
  shows "pages w' q = pages w q \<or> (\<exists>c. pages w' q = Some c \<and> str_contains lo_marker c)"
  using patch_one_pages [OF assms] marker_in_new_content
  by (elim disjE exE conjE) (simp, cases "q = reader r", simp_all)

lemma patch_all_marked:
  "patch_all dry rs stats w = (w', out) \<Longrightarrow>
     pages w' q = pages w q \<or> (\<exists>c. pages w' q = Some c \<and> str_contains lo_marker c)"
proof (induction rs arbitrary: stats w)
  case Nil
  then show ?case by simp
next
  case (Cons r rs)
  obtain w1 o1 where p: "patch_one dry r stats w = (w1, o1)"
    by (cases "patch_one dry r stats w")
  show ?case
  proof (cases o1)
    case (Inl e)
    with Cons.prems p patch_one_marked [OF p, of q] show ?thesis by simp
  next
    case (Inr stats1)
    with Cons.prems p have "patch_all dry rs stats1 w1 = (w', out)" by simp
    from Cons.IH [OF this] patch_one_marked [OF p, of q] show ?thesis by auto
  qed
qed

lemma patch_all_unmarked:
  "patch_all dry rs stats w = (w', out) \<Longrightarrow> r \<in> set rs \<Longrightarrow> \<not> dry \<Longrightarrow> out = Inr stats' \<Longrightarrow>
   pages w' (reader r) = Some c \<Longrightarrow> \<not> str_contains lo_marker c \<Longrightarrow>
     locate_region (read_text c) \<noteq> Region cs ci"
proof (induction rs arbitrary: stats w)
  case Nil
  then show ?case by simp
next
  case (Cons r0 rs)
  from Cons.prems(1,4) obtain w1 stats1 where p: "patch_one dry r0 stats w = (w1, Inr stats1)"
    and rest: "patch_all dry rs stats1 w1 = (w', out)"
    by (auto split: prod.splits sum.splits)
  note m = patch_all_marked [OF rest, of "reader r"]
  show ?case
  proof (cases "r \<in> set rs")
    case True
    from Cons.IH [OF rest True Cons.prems(3-6)] show ?thesis .
  next
    case False
    with Cons.prems(2) have r: "r = r0" by simp
    from m Cons.prems(5,6) have w1: "pages w1 (reader r) = Some c" by auto
    from patch_one_pages [OF p] show ?thesis
    proof (elim disjE exE conjE)
      assume "pages w1 = pages w"
      with w1 have pw: "pages w (reader r0) = Some c" by (simp add: r)
      from patch_one_Inr [OF p] obtain wu b a where
        u: "update_reader_page r0 dry w = (wu, Inr (b, a))" and "w1 = cleanup r0 wu" by blast
      then have pu: "pages wu (reader r0) = Some c" using w1 r by (simp add: cleanup_frame)
      show ?thesis
      proof
        assume reg: "locate_region (read_text c) = Region cs ci"
        from u Cons.prems(3) pw obtain body where b: "body_html r0 = Some body"
          by (cases "body_html r0") (auto simp: update_reader_page_def Let_def)
        obtain wc rc where ci: "copy_images (reader r0) (reader_slug r0)
            (case image_files r0 of None \<Rightarrow> [] | Some l \<Rightarrow> l) 0 w = (wc, rc)"
          by (cases "copy_images (reader r0) (reader_slug r0)
            (case image_files r0 of None \<Rightarrow> [] | Some l \<Rightarrow> l) 0 w")
        from update_reader_page_Region [OF pw b reg ci] u Cons.prems(3) obtain t where
          "wu = wc\<lparr>pages := (pages wc)(reader r0 \<mapsto> new_content (read_text c) body cs ci)\<rparr>"
          by (cases rc) auto
        then have "pages wu (reader r0) = Some (new_content (read_text c) body cs ci)" by simp
        with pu have "c = new_content (read_text c) body cs ci" by simp
        with marker_in_new_content [of "read_text c" body cs ci] Cons.prems(6) show False by simp
      qed
    next
      fix page body cs' ci'
      assume "pages w1 = (pages w)(reader r0 \<mapsto> new_content (read_text page) body cs' ci')"
      with w1 r have "c = new_content (read_text page) body cs' ci'" by simp
      with marker_in_new_content [of "read_text page" body cs' ci'] Cons.prems(6) show ?thesis by simp
    qed
  qed
qed

lemma patch_all_no_region:
  "patch_all dry rs stats w = (w', out) \<Longrightarrow>
   (\<And>r page cs ci. r \<in> set rs \<Longrightarrow> pages w (reader r) = Some page \<Longrightarrow> locate_region (read_text page) \<noteq> Region cs ci) \<Longrightarrow>
     pages w' = pages w \<and> assets w' = assets w"
proof (induction rs arbitrary: stats w)
  case Nil
  then show ?case by simp
next
  case (Cons r rs)
  obtain wu ou where u: "update_reader_page r dry w = (wu, ou)"
    by (cases "update_reader_page r dry w")
  have nr: "\<And>page cs ci. pages w (reader r) = Some page \<Longrightarrow> locate_region (read_text page) \<noteq> Region cs ci"
    using Cons.prems(2) [of r] by simp
  note f = update_reader_page_no_region [OF u nr]
  show ?case
  proof (cases ou)
    case (Inl e)
    with Cons.prems(1) u f show ?thesis by (simp add: patch_one_def Let_def)
  next
    case (Inr ba)
    obtain b a where ba: "ba = (b, a)" by (cases ba)
    from Inr ba u obtain stats1 where
      p: "patch_one dry r stats w = (cleanup r wu, Inr stats1)"
      by (simp add: patch_one_def Let_def)
    with Cons.prems(1) have rest: "patch_all dry rs stats1 (cleanup r wu) = (w', out)" by simp
    have "pages w' = pages (cleanup r wu) \<and> assets w' = assets (cleanup r wu)"
    proof (rule Cons.IH [OF rest])
      fix r' page cs ci
      assume "r' \<in> set rs" "pages (cleanup r wu) (reader r') = Some page"
      then show "locate_region (read_text page) \<noteq> Region cs ci"
        using Cons.prems(2) [of r' page cs ci] f by (simp add: cleanup_frame)
    qed
    with f show ?thesis by (simp add: cleanup_frame)
  qed
qed

lemma convert_one_result_eq:
  assumes "j_theme j = j_theme j'" "j_source j = j_source j'" "j_reader j = j_reader j'"
  shows "snd (convert_one E j w) = snd (convert_one E j' w')"
  using assms
  by (simp add: convert_one_def Let_def finally_block_def split: proc_outcome.splits)

lemma convert_all_results:
  "convert_all E js w = (w', rs) \<Longrightarrow> r \<in> set rs \<Longrightarrow>
     \<exists>j \<in> set js. \<forall>w0. r = snd (convert_one E j w0)"
proof (induction js arbitrary: w w' rs)
  case Nil
  then show ?case by simp
next
  case (Cons j js)
  obtain w1 r1 where c: "convert_one E j w = (w1, r1)" by (cases "convert_one E j w")
  obtain w2 rs' where a: "convert_all E js w1 = (w2, rs')" by (cases "convert_all E js w1")
  from Cons.prems(1) c a have rs: "rs = r1 # rs'" by simp
  show ?case
  proof (cases "r = r1")
    case True
    have "\<forall>w0. r = snd (convert_one E j w0)"
    proof
      fix w0
      from convert_one_result_eq [of j j E w w0] c True show "r = snd (convert_one E j w0)" by simp
    qed
    then show ?thesis by simp
  next
    case False
    with rs Cons.prems(2) have "r \<in> set rs'" by simp
    from Cons.IH [OF a this] show ?thesis by auto
  qed
qed

lemma convert_all_complete:
  "convert_all E js w = (w', rs) \<Longrightarrow> j \<in> set js \<Longrightarrow> snd (convert_one E j w0) \<in> set rs"
proof (induction js arbitrary: w w' rs)
  case Nil
  then show ?case by simp
next
  case (Cons j1 js)
  obtain w1 r1 where c: "convert_one E j1 w = (w1, r1)" by (cases "convert_one E j1 w")
  obtain w2 rs' where a: "convert_all E js w1 = (w2, rs')" by (cases "convert_all E js w1")
  from Cons.prems(1) c a have rs: "rs = r1 # rs'" by simp
  show ?case
  proof (cases "j = j1")
    case True
    from convert_one_result_eq [of j j E w w0] c True rs show ?thesis by simp
  next
    case False
    with Cons.prems(2) have "j \<in> set js" by simp
    from Cons.IH [OF a this] rs show ?thesis by simp
  qed
qed

lemma convert_one_reader: "reader (snd (convert_one E j w)) = j_reader j"
  by (simp add: convert_one_def Let_def finally_block_def inspect_output_def
      split: proc_outcome.splits list.splits)

lemma work_list_unmarked:
  assumes "work_list E a m w = Inr work" "\<not> arg_force a" "j \<in> set work"
  shows "((j_theme j, j_source j), j_reader j) \<in> set m \<and>
         convertible E ((j_theme j, j_source j), j_reader j) \<and>
         (\<exists>c. pages w (j_reader j) = Some c \<and> \<not> str_contains lo_marker c)"
proof -
  from work_list_Inr [OF assms(1)] assms(2) have
    m: "map (\<lambda>j. ((j_theme j, j_source j), j_reader j)) work =
      filter (convertible E) (sort_key fst
        (filter (\<lambda>(key, rd). \<exists>c. pages w rd = Some c \<and> \<not> str_contains lo_marker c) m))"
    by auto
  from assms(3) have "((j_theme j, j_source j), j_reader j) \<in>
      set (map (\<lambda>j. ((j_theme j, j_source j), j_reader j)) work)"
    by (rule imageI [of j "set work" "\<lambda>j. ((j_theme j, j_source j), j_reader j)", simplified set_map [symmetric]])
  then show ?thesis unfolding m by auto
qed

lemma work_list_has_job:
  assumes "work_list E a m w = Inr work" "(k, p) \<in> set m" "convertible E (k, p)"
    "pages w p = Some c" "\<not> str_contains lo_marker c"
  shows "\<exists>j \<in> set work. j_theme j = fst k \<and> j_source j = snd k \<and> j_reader j = p"
proof -
  from work_list_Inr [OF assms(1)] obtain f where
    f: "\<not> arg_force a \<longrightarrow>
          f = filter (\<lambda>(key, rd). \<exists>c. pages w rd = Some c \<and> \<not> str_contains lo_marker c) m"
       "arg_force a \<longrightarrow> f = m"
    and m: "map (\<lambda>j. ((j_theme j, j_source j), j_reader j)) work =
             filter (convertible E) (sort_key fst f)"
    by blast
  from f assms(2,4,5) have "(k, p) \<in> set f" by (cases "arg_force a") auto
  with assms(3) have "(k, p) \<in> set (filter (convertible E) (sort_key fst f))" by simp
  then have "(k, p) \<in> set (map (\<lambda>j. ((j_theme j, j_source j), j_reader j)) work)"
    by (simp only: m)
  then obtain j where "j \<in> set work" "((j_theme j, j_source j), j_reader j) = (k, p)" by auto
  then show ?thesis by (intro bexI [of _ j]) auto
qed

lemma main_pages_marked:
  assumes "main E a m w = (w', out)"
  shows "pages w' q = pages w q \<or> (\<exists>c. pages w' q = Some c \<and> str_contains lo_marker c)"
  using main_cases [OF assms]
proof (elim disjE exE conjE)
  fix work w1 all w2 res e
  assume c: "convert_all E work w = (w1, all)"
    and p: "patch_all (arg_dry_run a) (sort_key reader (filter with_images all)) [] w1 = (w2, res)"
    and "w' = w2"
  with patch_all_marked [OF p, of q] convert_all_frame [OF c] show ?thesis by simp
next
  fix work w1 all w2 res stats rep
  assume c: "convert_all E work w = (w1, all)"
    and p: "patch_all (arg_dry_run a) (sort_key reader (filter with_images all)) [] w1 = (w2, res)"
    and "w' = w2\<lparr>report_file := Some rep\<rparr>"
  with patch_all_marked [OF p, of q] convert_all_frame [OF c] show ?thesis by simp
next
  fix work w1 all
  assume c: "convert_all E work w = (w1, all)" and "w' = w1"
  with convert_all_frame [OF c] show ?thesis by simp
qed simp

lemma first_run_no_region:
  assumes run: "main E a m w = (w', out)" and nd: "\<not> arg_dry_run a" and nc: "\<And>e. out \<noteq> Crashed e"
    and item: "(k, p) \<in> set m" "convertible E (k, p)"
    and page: "pages w' p = Some c" "\<not> str_contains lo_marker c"
    and j: "j_theme j = fst k" "j_source j = snd k" "j_reader j = p"
    and wi: "with_images (snd (convert_one E j w0))"
  shows "locate_region (read_text c) \<noteq> Region cs ci"
proof -
  from main_pages_marked [OF run, of p] page have pw: "pages w p = Some c" by auto
  from main_cases [OF run] nc obtain work w1 all where
    wl: "work_list E a m w = Inr work" and ca: "convert_all E work w = (w1, all)"
    and rest: "(filter with_images all = [] \<and> w' = w1 \<and> out = NothingToUpdate) \<or>
       (filter with_images all \<noteq> [] \<and>
         (\<exists>w2 res. patch_all (arg_dry_run a) (sort_key reader (filter with_images all)) [] w1 = (w2, res) \<and>
            ((\<exists>e. res = Inl e \<and> w' = w2 \<and> out = Crashed e) \<or>
             (\<exists>stats rep. res = Inr stats \<and> rep = make_report E a stats all (filter with_images all) \<and>
                w' = w2\<lparr>report_file := Some rep\<rparr> \<and> out = Finished rep))))"
    by blast
  from work_list_has_job [OF wl item pw page(2)] obtain j1 where
    j1: "j1 \<in> set work" "j_theme j1 = fst k" "j_source j1 = snd k" "j_reader j1 = p"
    by blast
  define r where "r = snd (convert_one E j w0)"
  have "r = snd (convert_one E j1 w0)"
    unfolding r_def using j j1 by (intro convert_one_result_eq) simp_all
  with convert_all_complete [OF ca j1(1), of w0] have "r \<in> set all" by simp
  with wi have rin: "r \<in> set (sort_key reader (filter with_images all))" by (simp add: r_def)
  then have ne: "filter with_images all \<noteq> []" by (auto simp: filter_empty_conv)
  have rr: "reader r = p" unfolding r_def using convert_one_reader [of E j w0] j by simp
  from rest ne nc obtain w2 stats rep where
    p: "patch_all (arg_dry_run a) (sort_key reader (filter with_images all)) [] w1 = (w2, Inr stats)"
    and w': "w' = w2\<lparr>report_file := Some rep\<rparr>"
    by blast
  from w' page rr have "pages w2 (reader r) = Some c" by simp
  from patch_all_unmarked [OF p rin nd refl this page(2)] show ?thesis .
qed

lemma second_run_frame:
  assumes run1: "main E a1 m1 w1 = (w2, out1)" and nd: "\<not> arg_dry_run a1"
    and nc: "\<And>e. out1 \<noteq> Crashed e"
    and run2: "main E a2 m2 w2 = (w3, out2)" and nf: "\<not> arg_force a2"
    and sub: "\<And>k p c. (k, p) \<in> set m2 \<Longrightarrow> pages w2 p = Some c \<Longrightarrow>
                \<not> str_contains lo_marker c \<Longrightarrow> (k, p) \<in> set m1"
  shows "pages w3 = pages w2 \<and> assets w3 = assets w2"
  using main_cases [OF run2]
proof (elim disjE exE conjE)
  fix work wc all
  assume c: "convert_all E work w2 = (wc, all)" and "w3 = wc"
  with convert_all_frame [OF c] show ?thesis by simp
next
  fix work wc all wp res
  assume wl: "work_list E a2 m2 w2 = Inr work" and c: "convert_all E work w2 = (wc, all)"
    and p: "patch_all (arg_dry_run a2) (sort_key reader (filter with_images all)) [] wc = (wp, res)"
  have "pages wp = pages wc \<and> assets wp = assets wc"
  proof (rule patch_all_no_region [OF p])
    fix r page cs ci
    assume rin: "r \<in> set (sort_key reader (filter with_images all))"
      and pg: "pages wc (reader r) = Some page"
    then have r: "r \<in> set all" "with_images r" by auto
    from convert_all_results [OF c r(1)] obtain j where
      j: "j \<in> set work" "\<And>w0. r = snd (convert_one E j w0)"
      by blast
    have rr: "reader r = j_reader j" using j(2) [of w2] convert_one_reader [of E j w2] by simp
    from work_list_unmarked [OF wl nf j(1)] obtain c' where
      item: "((j_theme j, j_source j), j_reader j) \<in> set m2"
        "convertible E ((j_theme j, j_source j), j_reader j)"
      and c': "pages w2 (j_reader j) = Some c'" "\<not> str_contains lo_marker c'"
      by blast
    from pg convert_all_frame [OF c] rr c' have pc: "page = c'" by simp
    from sub [OF item(1) c'] have i1: "((j_theme j, j_source j), j_reader j) \<in> set m1" .
    from r(2) j(2) [of w2] have wi: "with_images (snd (convert_one E j w2))" by simp
    from first_run_no_region [OF run1 nd nc i1 item(2) c' _ _ _ wi] pc
    show "locate_region (read_text page) \<noteq> Region cs ci" by simp
  qed
  with convert_all_frame [OF c] have f: "pages wp = pages w2 \<and> assets wp = assets w2" by simp
  {
    assume "w3 = wp"
    with f show ?thesis by simp
  next
    fix rep
    assume "w3 = wp\<lparr>report_file := Some rep\<rparr>"
    with f show ?thesis by simp
  }
qed simp

section \<open>Facts about the mapping\<close>

lemma dict_set_subset: "set (dict_set k v m) \<subseteq> insert (k, v) (set m)"
  by (induction m) (auto split: if_splits)

lemma dict_set_new: "(k, v) \<in> set (dict_set k v m)"
  by (induction m) auto

lemma dict_set_keep:
  "(k, p) \<in> set m \<Longrightarrow> (k, p) \<in> set (dict_set k' v m) \<or> k' = k"
  by (induction m) auto

lemma scan_pages_step:
  "scan_pages E A w th (name # names) m0 = Inr m \<Longrightarrow>
     pages w (reader_path E th name) \<noteq> None \<and>
     scan_pages E A w th names
       (case page_key E A w th name of
          None \<Rightarrow> m0
        | Some k \<Rightarrow> dict_set k (reader_path E th name) m0) = Inr m"
  by (auto simp: page_key_def Let_def split: option.splits if_splits)

lemma scan_pages_sound:
  "scan_pages E A w th names m0 = Inr m \<Longrightarrow> (k, p) \<in> set m \<Longrightarrow>
     (k, p) \<in> set m0 \<or>
     (\<exists>name \<in> set names. p = reader_path E th name \<and> page_key E A w th name = Some k)"
proof (induction names arbitrary: m0)
  case Nil
  then show ?case by simp
next
  case (Cons name names)
  note st = scan_pages_step [OF Cons.prems(1)]
  from Cons.IH [OF st [THEN conjunct2] Cons.prems(2)]
  show ?case
  proof (elim disjE)
    assume a: "(k, p) \<in> set (case page_key E A w th name of None \<Rightarrow> m0
        | Some k \<Rightarrow> dict_set k (reader_path E th name) m0)"
    show ?thesis
    proof (cases "page_key E A w th name")
      case None
      with a show ?thesis by simp
    next
      case (Some k')
      with a dict_set_subset [of k' "reader_path E th name" m0]
      have "(k, p) = (k', reader_path E th name) \<or> (k, p) \<in> set m0" by auto
      with Some show ?thesis by auto
    qed
  qed auto
qed

lemma scan_pages_keep:
  "scan_pages E A w th names m0 = Inr m \<Longrightarrow> (k, p) \<in> set m0 \<Longrightarrow>
     (k, p) \<in> set m \<or>
     (\<exists>name \<in> set names. (k, reader_path E th name) \<in> set m \<and> page_key E A w th name = Some k)"
proof (induction names arbitrary: m0 p)
  case Nil
  then show ?case by simp
next
  case (Cons name names)
  note st = scan_pages_step [OF Cons.prems(1)]
  show ?case
  proof (cases "page_key E A w th name")
    case None
    with st have "scan_pages E A w th names m0 = Inr m" by simp
    from Cons.IH [OF this Cons.prems(2)] show ?thesis by auto
  next
    case (Some k')
    with st have s: "scan_pages E A w th names (dict_set k' (reader_path E th name) m0) = Inr m"
      by simp
    from dict_set_keep [OF Cons.prems(2), of k' "reader_path E th name"]
    show ?thesis
    proof
      assume "(k, p) \<in> set (dict_set k' (reader_path E th name) m0)"
      from Cons.IH [OF s this] show ?thesis by auto
    next
      assume kk: "k' = k"
      have "(k, reader_path E th name) \<in> set (dict_set k' (reader_path E th name) m0)"
        unfolding kk by (rule dict_set_new)
      from Cons.IH [OF s this] Some kk show ?thesis by auto
    qed
  qed
qed

lemma scan_pages_complete:
  "scan_pages E A w th names m0 = Inr m \<Longrightarrow> name \<in> set names \<Longrightarrow>
   page_key E A w th name = Some k \<Longrightarrow>
     \<exists>name' \<in> set names. (k, reader_path E th name') \<in> set m \<and> page_key E A w th name' = Some k"
proof (induction names arbitrary: m0)
  case Nil
  then show ?case by simp
next
  case (Cons name1 names)
  note st = scan_pages_step [OF Cons.prems(1)]
  show ?case
  proof (cases "name = name1")
    case True
    with st Cons.prems(3)
    have s: "scan_pages E A w th names (dict_set k (reader_path E th name) m0) = Inr m" by simp
    from scan_pages_keep [OF s dict_set_new] True Cons.prems(3) show ?thesis by auto
  next
    case False
    with Cons.prems(2) have "name \<in> set names" by simp
    from Cons.IH [OF st [THEN conjunct2] this Cons.prems(3)] show ?thesis by auto
  qed
qed

lemma page_key_theme: "page_key E A w th name = Some k \<Longrightarrow> fst k = th"
  by (auto simp: page_key_def split: option.splits if_splits)

lemma page_key_cong:
  "pages w (reader_path E th name) = pages w' (reader_path E th name) \<Longrightarrow>
     page_key E A w th name = page_key E A w' th name"
  by (simp add: page_key_def)

lemma page_key_page: "page_key E A w th name = Some k \<Longrightarrow> pages w (reader_path E th name) \<noteq> None"
  by (auto simp: page_key_def split: option.splits)

lemma scan_themes_step:
  "scan_themes E A w (th # ths) m0 = Inr m \<Longrightarrow>
     \<exists>m1. scan_pages E A w th (sort (html_entries A th)) m0 = Inr m1 \<and>
           scan_themes E A w ths m1 = Inr m"
  by (auto simp: html_entries_def split: option.splits sum.splits)

lemma scan_themes_sound:
  "scan_themes E A w ths m0 = Inr m \<Longrightarrow> (k, p) \<in> set m \<Longrightarrow>
     (k, p) \<in> set m0 \<or>
     (\<exists>th \<in> set ths. \<exists>name \<in> set (html_entries A th).
        p = reader_path E th name \<and> page_key E A w th name = Some k)"
proof (induction ths arbitrary: m0)
  case Nil
  then show ?case by simp
next
  case (Cons th ths)
  from scan_themes_step [OF Cons.prems(1)] obtain m1 where
    s1: "scan_pages E A w th (sort (html_entries A th)) m0 = Inr m1"
    and s2: "scan_themes E A w ths m1 = Inr m"
    by blast
  from Cons.IH [OF s2 Cons.prems(2)] show ?case
  proof
    assume "(k, p) \<in> set m1"
    from scan_pages_sound [OF s1 this] show ?thesis by auto
  qed auto
qed

lemma scan_themes_keep:
  "scan_themes E A w ths m0 = Inr m \<Longrightarrow> (k, p) \<in> set m0 \<Longrightarrow>
     (k, p) \<in> set m \<or>
     (\<exists>th \<in> set ths. \<exists>name \<in> set (html_entries A th).
        (k, reader_path E th name) \<in> set m \<and> page_key E A w th name = Some k)"
proof (induction ths arbitrary: m0 p)
  case Nil
  then show ?case by simp
next
  case (Cons th ths)
  from scan_themes_step [OF Cons.prems(1)] obtain m1 where
    s1: "scan_pages E A w th (sort (html_entries A th)) m0 = Inr m1"
    and s2: "scan_themes E A w ths m1 = Inr m"
    by blast
  from scan_pages_keep [OF s1 Cons.prems(2)] show ?case
  proof
    assume "(k, p) \<in> set m1"
    from Cons.IH [OF s2 this] show ?thesis by auto
  next
    assume "\<exists>name \<in> set (sort (html_entries A th)).
      (k, reader_path E th name) \<in> set m1 \<and> page_key E A w th name = Some k"
    then obtain name where n: "name \<in> set (html_entries A th)"
      "(k, reader_path E th name) \<in> set m1" "page_key E A w th name = Some k"
      by auto
    from Cons.IH [OF s2 n(2)] n(1,3) show ?thesis by auto
  qed
qed

lemma scan_themes_complete:
  "scan_themes E A w ths m0 = Inr m \<Longrightarrow> th \<in> set ths \<Longrightarrow> name \<in> set (html_entries A th) \<Longrightarrow>
   page_key E A w th name = Some k \<Longrightarrow>
     \<exists>th' \<in> set ths. \<exists>name' \<in> set (html_entries A th').
        (k, reader_path E th' name') \<in> set m \<and> page_key E A w th' name' = Some k"
proof (induction ths arbitrary: m0)
  case Nil
  then show ?case by simp
next
  case (Cons th1 ths)
  from scan_themes_step [OF Cons.prems(1)] obtain m1 where
    s1: "scan_pages E A w th1 (sort (html_entries A th1)) m0 = Inr m1"
    and s2: "scan_themes E A w ths m1 = Inr m"
    by blast
  show ?case
  proof (cases "th = th1")
    case True
    from Cons.prems(3) True have "name \<in> set (sort (html_entries A th1))" by simp
    from scan_pages_complete [OF s1 this] Cons.prems(4) True obtain name' where
      n: "name' \<in> set (html_entries A th1)" "(k, reader_path E th1 name') \<in> set m1"
        "page_key E A w th1 name' = Some k"
      by auto
    from scan_themes_keep [OF s2 n(2)] n(1,3) show ?thesis by auto
  next
    case False
    with Cons.prems(2) have "th \<in> set ths" by simp
    from Cons.IH [OF s2 this Cons.prems(3,4)] show ?thesis by auto
  qed
qed

lemma build_mapping_scan:
  "\<exists>ths. set ths \<subseteq> set (root_entries A) \<and>
     (\<forall>w. build_mapping E A only_themes w = scan_themes E A w ths [])"
proof -
  define ths where "ths =
    (case only_themes of
       Some (t # ts) \<Rightarrow> filter (\<lambda>d. d \<in> set (t # ts)) (sort (filter theme_glob (root_entries A)))
     | _ \<Rightarrow> sort (filter theme_glob (root_entries A)))"
  have "set ths \<subseteq> set (root_entries A)"
    by (auto simp: ths_def split: option.splits list.splits)
  moreover have "\<forall>w. build_mapping E A only_themes w = scan_themes E A w ths []"
    by (simp add: build_mapping_def ths_def Let_def)
  ultimately show ?thesis by blast
qed

lemma run_main_frame:
  assumes run1: "run_main E A t a1 w1 = (w2, out1)" and nd: "\<not> arg_dry_run a1"
    and nc: "\<And>e. out1 \<noteq> Crashed e"
    and run2: "run_main E A t a2 w2 = (w3, out2)" and nf: "\<not> arg_force a2"
    and u: "unique_links E A w1"
  shows "pages w3 = pages w2 \<and> assets w3 = assets w2"
proof -
  define ot where "ot = (case t of Some (c # cs) \<Rightarrow> Some [c # cs] | _ \<Rightarrow> None)"
  from build_mapping_scan [of A E ot] obtain ths where
    ths: "set ths \<subseteq> set (root_entries A)"
    and bm: "\<And>w. build_mapping E A ot w = scan_themes E A w ths []"
    by blast
  have rm: "run_main E A t a w =
      (case scan_themes E A w ths [] of Inl e \<Rightarrow> (w, Crashed e) | Inr m \<Rightarrow> main E a m w)" for a w
    unfolding run_main_def ot_def [symmetric] bm ..
  obtain m1 where m1: "scan_themes E A w1 ths [] = Inr m1"
    and r1: "main E a1 m1 w1 = (w2, out1)"
  proof (cases "scan_themes E A w1 ths []")
    case (Inl e)
    with run1 rm [of a1 w1] have "out1 = Crashed e" by simp
    with nc [of e] show ?thesis by simp
  next
    case (Inr m)
    with run1 rm [of a1 w1] have "main E a1 m w1 = (w2, out1)" by simp
    with Inr that show ?thesis by simp
  qed
  show ?thesis
  proof (cases "scan_themes E A w2 ths []")
    case (Inl e)
    with run2 rm [of a2 w2] show ?thesis by simp
  next
    case (Inr m2)
    with run2 rm [of a2 w2] have r2: "main E a2 m2 w2 = (w3, out2)" by simp
    show ?thesis
    proof (rule second_run_frame [OF r1 nd nc r2 nf])
      fix k p c
      assume i: "(k, p) \<in> set m2" and pg: "pages w2 p = Some c" "\<not> str_contains lo_marker c"
      from scan_themes_sound [OF Inr i] obtain th name where
        n: "th \<in> set ths" "name \<in> set (html_entries A th)" "p = reader_path E th name"
          "page_key E A w2 th name = Some k"
        by auto
      from main_pages_marked [OF r1, of p] pg have "pages w2 p = pages w1 p" by auto
      with n(3) have "page_key E A w1 th name = page_key E A w2 th name"
        by (intro page_key_cong) simp
      with n(4) have k1: "page_key E A w1 th name = Some k" by simp
      from scan_themes_complete [OF m1 n(1,2) k1] obtain th' name' where
        n': "th' \<in> set ths" "name' \<in> set (html_entries A th')"
          "(k, reader_path E th' name') \<in> set m1" "page_key E A w1 th' name' = Some k"
        by blast
      from page_key_theme [OF n'(4)] page_key_theme [OF k1] have tt: "th' = th" by simp
      from n(1) ths have "th \<in> set (root_entries A)" by auto
      with u have "\<forall>n \<in> set (html_entries A th). \<forall>n' \<in> set (html_entries A th).
          page_key E A w1 th n \<noteq> None \<and> page_key E A w1 th n = page_key E A w1 th n' \<longrightarrow> n = n'"
        unfolding unique_links_def by (rule bspec)
      with n(2) n'(2) k1 n'(4) tt have "name = name'" by auto
      with n'(3) tt n(3) show "(k, p) \<in> set m1" by simp
    qed
  qed
qed

section \<open>Containment of the patch\<close>

text \<open>
  C1, amended. A non-dry-run \<^verbatim>\<open>update_reader_page\<close> on a page leaves every other page as
  it was, and the page itself either as it was or as \<open>a @ open_tag @ new @ close_div @ c\<close>
  where the page as \<^verbatim>\<open>read_text\<close> returns it is \<open>a @ open_tag @ b @ close_div @ c\<close>, the
  opening tag after \<open>a\<close> is its first occurrence and the closing tag before \<open>c\<close> is the one
  located: everything up to the end of the first opening tag and everything from the
  located closing tag on is that of the page as read, and only the text between them is
  replaced. The page as read has no carriage return, and it is the stored page when
  that has none: then, and in general only then, what lies outside the region is
  unchanged byte for byte.
\<close>

theorem update_reader_page_containment:
  assumes "pages w (reader result) = Some stored"
    and "update_reader_page result False w = (w', out)"
  shows "(\<forall>p. p \<noteq> reader result \<longrightarrow> pages w' p = pages w p) \<and>
         (pages w' (reader result) = Some stored \<or>
          (\<exists>a b c body. read_text stored = a @ open_tag @ b @ close_div @ c \<and>
             (\<forall>a' b'. read_text stored = a' @ open_tag @ b' \<longrightarrow> length a \<le> length a') \<and>
             locate_region (read_text stored) =
               Region (length (a @ open_tag)) (length (a @ open_tag @ b)) \<and>
             body_html result = Some body \<and>
             pages w' (reader result) =
               Some (a @ open_tag @ (nl @ lo_marker @ nl @ body @ nl) @ close_div @ c))) \<and>
         CHR 0x0D \<notin> set (read_text stored) \<and>
         (CHR 0x0D \<notin> set stored \<longrightarrow> read_text stored = stored)"
proof (intro conjI)
  show "CHR 0x0D \<notin> set (read_text stored)" by (rule read_text_no_cr)
  show "CHR 0x0D \<notin> set stored \<longrightarrow> read_text stored = stored" by (simp add: read_text_id)
  have "(\<forall>p. p \<noteq> reader result \<longrightarrow> pages w' p = pages w p) \<and>
         (pages w' (reader result) = Some stored \<or>
          (\<exists>a b c body. read_text stored = a @ open_tag @ b @ close_div @ c \<and>
             (\<forall>a' b'. read_text stored = a' @ open_tag @ b' \<longrightarrow> length a \<le> length a') \<and>
             locate_region (read_text stored) =
               Region (length (a @ open_tag)) (length (a @ open_tag @ b)) \<and>
             body_html result = Some body \<and>
             pages w' (reader result) =
               Some (a @ open_tag @ (nl @ lo_marker @ nl @ body @ nl) @ close_div @ c)))"
  proof (cases "body_html result")
    case None
    with assms show ?thesis by (auto simp: update_reader_page_def Let_def)
  next
    case (Some body)
    show ?thesis
    proof (cases "locate_region (read_text stored)")
      case NoOpenTag
      with assms Some show ?thesis by (auto simp: update_reader_page_def warn_def Let_def)
    next
      case NoCloseTag
      with assms Some show ?thesis by (auto simp: update_reader_page_def warn_def Let_def)
    next
      case (Region cs ci)
      obtain w1 r1 where ci: "copy_images (reader result) (reader_slug result)
          (case image_files result of None \<Rightarrow> [] | Some l \<Rightarrow> l) 0 w = (w1, r1)"
        by (cases "copy_images (reader result) (reader_slug result)
          (case image_files result of None \<Rightarrow> [] | Some l \<Rightarrow> l) 0 w")
      note fr = copy_images_frame [OF ci]
      note up = update_reader_page_Region [OF assms(1) Some Region ci]
      show ?thesis
      proof (cases r1)
        case (Inl e)
        with up assms(2) have "w' = w1" by simp
        with fr assms(1) show ?thesis by simp
      next
        case (Inr t)
        from locate_region_Region [OF Region] obtain a b c where
          abc: "read_text stored = a @ open_tag @ b @ close_div @ c"
            "\<forall>a' b'. read_text stored = a' @ open_tag @ b' \<longrightarrow> length a \<le> length a'"
            "cs = length (a @ open_tag)" "ci = length (a @ open_tag @ b)"
          by blast
        have nc: "new_content (read_text stored) body cs ci =
            a @ open_tag @ (nl @ lo_marker @ nl @ body @ nl) @ close_div @ c"
          using abc(1,3,4) by (simp add: new_content_def)
        from up assms(2) Inr
        have w': "w' = w1\<lparr>pages := (pages w1)(reader result \<mapsto> new_content (read_text stored) body cs ci)\<rparr>"
          by simp
        have other: "\<forall>p. p \<noteq> reader result \<longrightarrow> pages w' p = pages w p"
          using w' fr by simp
        have "pages w' (reader result) =
            Some (a @ open_tag @ (nl @ lo_marker @ nl @ body @ nl) @ close_div @ c)"
          using w' nc by simp
        with abc(1,2) Region abc(3,4) Some
        have "\<exists>a b c body. read_text stored = a @ open_tag @ b @ close_div @ c \<and>
             (\<forall>a' b'. read_text stored = a' @ open_tag @ b' \<longrightarrow> length a \<le> length a') \<and>
             locate_region (read_text stored) =
               Region (length (a @ open_tag)) (length (a @ open_tag @ b)) \<and>
             body_html result = Some body \<and>
             pages w' (reader result) =
               Some (a @ open_tag @ (nl @ lo_marker @ nl @ body @ nl) @ close_div @ c)"
          by (intro exI [of _ a] exI [of _ b] exI [of _ c] exI [of _ body]) simp
        with other show ?thesis by blast
      qed
    qed
  qed
  then show "\<forall>p. p \<noteq> reader result \<longrightarrow> pages w' p = pages w p"
    and "pages w' (reader result) = Some stored \<or>
          (\<exists>a b c body. read_text stored = a @ open_tag @ b @ close_div @ c \<and>
             (\<forall>a' b'. read_text stored = a' @ open_tag @ b' \<longrightarrow> length a \<le> length a') \<and>
             locate_region (read_text stored) =
               Region (length (a @ open_tag)) (length (a @ open_tag @ b)) \<and>
             body_html result = Some body \<and>
             pages w' (reader result) =
               Some (a @ open_tag @ (nl @ lo_marker @ nl @ body @ nl) @ close_div @ c))"
    by simp_all
qed

theorem update_reader_page_containment_witness:
  "pages ex_world (reader ex_result) = Some ex_page \<and>
   CHR 0x0D \<notin> set ex_page \<and>
   (\<exists>a b c body. ex_page = a @ open_tag @ b @ close_div @ c \<and>
      locate_region ex_page = Region (length (a @ open_tag)) (length (a @ open_tag @ b)) \<and>
      body_html ex_result = Some body \<and>
      pages (fst (update_reader_page ex_result False ex_world)) (reader ex_result) =
        Some (a @ open_tag @ (nl @ lo_marker @ nl @ body @ nl) @ close_div @ c))"
proof -
  have h1: "pages ex_world (reader ex_result) = Some ex_page"
    by (simp add: ex_world_def ex_result_def)
  have h2: "update_reader_page ex_result False ex_world =
      (fst (update_reader_page ex_result False ex_world), snd (update_reader_page ex_result False ex_world))"
    by simp
  have h3: "pages (fst (update_reader_page ex_result False ex_world)) (reader ex_result) \<noteq> Some ex_page"
    by code_simp
  have h4: "CHR 0x0D \<notin> set ex_page" by code_simp
  note t = update_reader_page_containment [OF h1 h2]
  from t h4 have id: "read_text ex_page = ex_page" by blast
  from t [THEN conjunct2, THEN conjunct1] h3
  have "\<exists>a b c body. read_text ex_page = a @ open_tag @ b @ close_div @ c \<and>
      (\<forall>a' b'. read_text ex_page = a' @ open_tag @ b' \<longrightarrow> length a \<le> length a') \<and>
      locate_region (read_text ex_page) = Region (length (a @ open_tag)) (length (a @ open_tag @ b)) \<and>
      body_html ex_result = Some body \<and>
      pages (fst (update_reader_page ex_result False ex_world)) (reader ex_result) =
        Some (a @ open_tag @ (nl @ lo_marker @ nl @ body @ nl) @ close_div @ c)"
    by blast
  then have "\<exists>a b c body. ex_page = a @ open_tag @ b @ close_div @ c \<and>
      locate_region ex_page = Region (length (a @ open_tag)) (length (a @ open_tag @ b)) \<and>
      body_html ex_result = Some body \<and>
      pages (fst (update_reader_page ex_result False ex_world)) (reader ex_result) =
        Some (a @ open_tag @ (nl @ lo_marker @ nl @ body @ nl) @ close_div @ c)"
    unfolding id by blast
  with h1 h4 show ?thesis by blast
qed

text \<open>
  C1 as stated fails on a page stored with carriage returns. In \<open>crlf_page\<close> the first
  opening tag starts at 10 and ends at 38, and the located closing tag starts at 41.
  The page written has a line feed alone where the stored page has a carriage return
  and a line feed, before the container and after it: its first 38 bytes are not those
  of the stored page, and neither are its bytes from the closing tag on.
\<close>

theorem carriage_returns_rewritten:
  \<open>pages crlf_world (reader ex_result) = Some crlf_page \<and>
   first_at open_tag crlf_page 0 10 \<and>
   take 38 crlf_page = ''<p>x</p>'' @ [CHR 0x0D, CHR 0x0A] @ open_tag \<and>
   drop 41 crlf_page =
     close_div @ [CHR 0x0D, CHR 0x0A] @ ''<a class="file-link-btn" href="../files/a.doc">a</a>'' \<and>
   snd (update_reader_page ex_result False crlf_world) = Inr (101, 155) \<and>
   pages (fst (update_reader_page ex_result False crlf_world)) (reader ex_result) =
     Some (''<p>x</p>'' @ nl @ open_tag @ nl @ lo_marker @ nl @
           ''<p><img src="img/a/img001.png"></p>'' @ nl @
           close_div @ nl @ ''<a class="file-link-btn" href="../files/a.doc">a</a>'') \<and>
   \<not> prefix (take 38 crlf_page)
       (''<p>x</p>'' @ nl @ open_tag @ nl @ lo_marker @ nl @
        ''<p><img src="img/a/img001.png"></p>'' @ nl @
        close_div @ nl @ ''<a class="file-link-btn" href="../files/a.doc">a</a>'') \<and>
   \<not> suffix (drop 41 crlf_page)
       (''<p>x</p>'' @ nl @ open_tag @ nl @ lo_marker @ nl @
        ''<p><img src="img/a/img001.png"></p>'' @ nl @
        close_div @ nl @ ''<a class="file-link-btn" href="../files/a.doc">a</a>'')\<close>
  unfolding first_at_iff by code_simp

section \<open>Locating the splice region\<close>

text \<open>
  C8, amended. \<open>page\<close> is the page as \<^verbatim>\<open>read_text\<close> returns it, the size is that of its
  file. The patcher uses the first occurrence of the container's opening tag; when
  there is none the page is left untouched, a warning is printed and the size before is
  returned twice. With the download link first found at \<open>k\<close> after the container's start
  and a closing tag lying between the start and \<open>k\<close>, the closing tag chosen is the last
  such one. The fallback to the first closing tag after the container's start is taken
  exactly when the link is absent or no closing tag lies between the start and the link.
  When no closing tag follows the start at all the page is left untouched, with a
  warning and the size before returned twice.
\<close>

theorem splice_region_location:
  "(none_from open_tag page 0 \<longrightarrow> locate_region page = NoOpenTag) \<and>
   (\<forall>oi cs. first_at open_tag page 0 oi \<and> cs = oi + length open_tag \<longrightarrow>
      (\<forall>k ci. first_at file_link_btn page cs k \<and> last_within close_div page cs k ci \<longrightarrow>
         close_before_link page cs = Some ci \<and> locate_region page = Region cs ci) \<and>
      (close_before_link page cs = None \<longleftrightarrow>
         none_from file_link_btn page cs \<or>
         (\<exists>k. first_at file_link_btn page cs k \<and> none_within close_div page cs k)) \<and>
      (\<forall>ci. close_before_link page cs = None \<and> first_at close_div page cs ci \<longrightarrow>
         locate_region page = Region cs ci) \<and>
      (none_from close_div page cs \<longrightarrow> locate_region page = NoCloseTag)) \<and>
   (\<forall>(result :: conv_result) (w :: world) body stored.
      pages w (reader result) = Some stored \<and> read_text stored = page \<and> body_html result = Some body \<longrightarrow>
      (locate_region page = NoOpenTag \<longrightarrow>
         update_reader_page result False w =
           (warn (no_open_warning @ reader result) w, Inr (utf8_len stored, utf8_len stored))) \<and>
      (locate_region page = NoCloseTag \<longrightarrow>
         update_reader_page result False w =
           (warn (no_close_warning @ reader result) w, Inr (utf8_len stored, utf8_len stored))) \<and>
      (\<forall>line. pages (warn line w) = pages w \<and> assets (warn line w) = assets w \<and>
         tmp (warn line w) = tmp w))"
proof (intro conjI allI impI)
  assume "none_from open_tag page 0"
  then show "locate_region page = NoOpenTag"
    by (simp add: none_from_iff locate_region_def)
next
  fix oi cs k ci
  assume a: "first_at open_tag page 0 oi \<and> cs = oi + length open_tag"
    and b: "first_at file_link_btn page cs k \<and> last_within close_div page cs k ci"
  from b show c: "close_before_link page cs = Some ci"
    by (simp add: first_at_iff last_within_iff close_before_link_def)
  from a c show "locate_region page = Region cs ci"
    by (simp add: first_at_iff locate_region_def find_close_idx_def)
next
  fix oi cs
  show "close_before_link page cs = None \<longleftrightarrow>
         none_from file_link_btn page cs \<or>
         (\<exists>k. first_at file_link_btn page cs k \<and> none_within close_div page cs k)"
    by (auto simp: first_at_iff none_from_iff none_within_iff close_before_link_def
             split: option.splits)
next
  fix oi cs ci
  assume a: "first_at open_tag page 0 oi \<and> cs = oi + length open_tag"
    and b: "close_before_link page cs = None \<and> first_at close_div page cs ci"
  then show "locate_region page = Region cs ci"
    by (simp add: first_at_iff locate_region_def find_close_idx_def)
next
  fix oi cs
  assume a: "first_at open_tag page 0 oi \<and> cs = oi + length open_tag"
    and b: "none_from close_div page cs"
  have "close_before_link page cs = None"
  proof (cases "close_before_link page cs")
    case (Some i)
    then have "cs \<le> i \<and> occurs_at close_div page i"
      by (auto simp: close_before_link_def str_rfind_Some_iff split: option.splits)
    with b show ?thesis by (auto simp: none_from_def)
  qed simp
  with a b show "locate_region page = NoCloseTag"
    by (simp add: first_at_iff none_from_iff locate_region_def find_close_idx_def)
next
  fix result :: conv_result and w :: world and body stored
  assume "pages w (reader result) = Some stored \<and> read_text stored = page \<and> body_html result = Some body"
    and "locate_region page = NoOpenTag"
  then show "update_reader_page result False w =
           (warn (no_open_warning @ reader result) w, Inr (utf8_len stored, utf8_len stored))"
    by (simp add: update_reader_page_def Let_def)
next
  fix result :: conv_result and w :: world and body stored
  assume "pages w (reader result) = Some stored \<and> read_text stored = page \<and> body_html result = Some body"
    and "locate_region page = NoCloseTag"
  then show "update_reader_page result False w =
           (warn (no_close_warning @ reader result) w, Inr (utf8_len stored, utf8_len stored))"
    by (simp add: update_reader_page_def Let_def)
qed (simp_all add: warn_def)


theorem splice_region_location_witness:
  "first_at open_tag ex_page 0 6 \<and> first_at file_link_btn ex_page 34 43 \<and>
   last_within close_div ex_page 34 43 37 \<and> close_before_link ex_page 34 = Some 37 \<and>
   locate_region ex_page = Region 34 37 \<and>
   locate_region no_container_page = NoOpenTag \<and>
   update_reader_page ex_result False (start_world no_container_page) =
     (warn (no_open_warning @ reader ex_result) (start_world no_container_page), Inr (75, 75))"
proof -
  have h1: "first_at open_tag ex_page 0 6 \<and> 34 = 6 + length open_tag"
    unfolding first_at_iff by code_simp
  have h2: "first_at file_link_btn ex_page 34 43 \<and> last_within close_div ex_page 34 43 37"
    unfolding first_at_iff last_within_iff by code_simp
  from splice_region_location [of ex_page] h1 h2
  have c1: "close_before_link ex_page 34 = Some 37 \<and> locate_region ex_page = Region 34 37"
    by blast
  have h3: \<open>pages (start_world no_container_page) (reader ex_result) = Some no_container_page \<and>
      read_text no_container_page = no_container_page \<and>
      body_html ex_result = Some ''<p><img src="img/a/img001.png"></p>''\<close>
    by code_simp
  have h4: "locate_region no_container_page = NoOpenTag" by code_simp
  have h5: "utf8_len no_container_page = 75" by code_simp
  from splice_region_location [of no_container_page, THEN conjunct2, THEN conjunct2,
      THEN spec, THEN spec, THEN spec, THEN spec, THEN mp, OF h3, THEN conjunct1, THEN mp, OF h4]
  have c2: "update_reader_page ex_result False (start_world no_container_page) =
     (warn (no_open_warning @ reader ex_result) (start_world no_container_page), Inr (75, 75))"
    unfolding h5 .
  from h1 h2 c1 h4 c2 show ?thesis by simp
qed

text \<open>
  C8 as stated fails: on \<open>link_inside_page\<close> the download link is present (first found
  at 29, after the container's start 28), yet the fallback is taken and the closing tag
  chosen is the first one after the start, at 68, which follows the link.
\<close>

theorem fallback_with_link_present:
  "first_at open_tag link_inside_page 0 0 \<and> first_at file_link_btn link_inside_page 28 29 \<and>
   close_before_link link_inside_page 28 = None \<and>
   first_at close_div link_inside_page 28 68 \<and>
   locate_region link_inside_page = Region 28 68"
  unfolding first_at_iff by code_simp

section \<open>Deterministic renaming\<close>

text \<open>
  C3. For lists of distinct original names with the same set of names the rename map,
  and with it the whole result of \<^verbatim>\<open>clean_lo_html\<close>, is the same: it does not depend on the
  order of enumeration. The map lists the names in sorted order and gives the name at
  position \<open>i\<close> (from 1) the new name \<^verbatim>\<open>img\<close>, \<open>i\<close> in three digits, and the original
  suffix, or \<^verbatim>\<open>.png\<close> when the name has none. For \<^verbatim>\<open>picture2.png\<close> and \<^verbatim>\<open>picture1.jpg\<close> the
  map sends \<^verbatim>\<open>picture1.jpg\<close> to \<^verbatim>\<open>img001.jpg\<close> and \<^verbatim>\<open>picture2.png\<close> to \<^verbatim>\<open>img002.png\<close>, and the
  fragment refers to \<^verbatim>\<open>img/<slug>/img002.png\<close> and \<^verbatim>\<open>img/<slug>/img001.jpg\<close>.
\<close>

theorem rename_map_deterministic:
  \<open>(distinct xs \<and> distinct ys \<and> set xs = set ys \<longrightarrow>
      build_img_map xs = build_img_map ys \<and>
      clean_lo_html L body xs slug = clean_lo_html L body ys slug) \<and>
   (distinct xs \<longrightarrow>
      build_img_map xs =
        map (\<lambda>(i, orig). (orig, ''img'' @ fmt_03d i @
                (if path_suffix orig = [] then ''.png'' else path_suffix orig)))
          (List.enumerate 1 (sort xs))) \<and>
   fmt_03d 1 = ''001'' \<and> fmt_03d 2 = ''002'' \<and> fmt_03d 10 = ''010'' \<and>
   build_img_map [''picture2.png'', ''picture1.jpg''] =
     [(''picture1.jpg'', ''img001.jpg''), (''picture2.png'', ''img002.png'')] \<and>
   (unquote L ''picture1.jpg'' = ''picture1.jpg'' \<and> unquote L ''picture2.png'' = ''picture2.png'' \<and>
    tag_stripper L [''font''] two_images_body = two_images_body \<longrightarrow>
      fst (clean_lo_html L two_images_body [''picture2.png'', ''picture1.jpg''] slug) =
        ''<p><img src="img/'' @ slug @ ''/img002.png"> <img src="img/'' @ slug @ ''/img001.jpg"></p>'')\<close>
proof (intro conjI impI)
  assume a: "distinct xs \<and> distinct ys \<and> set xs = set ys"
  then have "mset xs = mset ys" by (metis set_eq_iff_mset_eq_distinct)
  then have "sort xs = sort ys" by (rule sort_cong_mset)
  then show m: "build_img_map xs = build_img_map ys" by (simp add: build_img_map_def)
  then show "clean_lo_html L body xs slug = clean_lo_html L body ys slug"
    by (simp add: clean_lo_html_def)
next
  assume "distinct xs"
  then have "distinct (sort xs)" by simp
  from assign_names_distinct [OF this, of "[]" 1]
  show "build_img_map xs =
        map (\<lambda>(i, orig). (orig, ''img'' @ fmt_03d i @
                (if path_suffix orig = [] then ''.png'' else path_suffix orig)))
          (List.enumerate 1 (sort xs))"
    by (simp add: build_img_map_def img_name_def Let_def)
next
  show "fmt_03d 1 = ''001''" by code_simp
  show "fmt_03d 2 = ''002''" by code_simp
  show "fmt_03d 10 = ''010''" by code_simp
  show "build_img_map [''picture2.png'', ''picture1.jpg''] =
     [(''picture1.jpg'', ''img001.jpg''), (''picture2.png'', ''img002.png'')]"
    by (rule ex_map)
next
  assume "unquote L ''picture1.jpg'' = ''picture1.jpg'' \<and> unquote L ''picture2.png'' = ''picture2.png'' \<and>
    tag_stripper L [''font''] two_images_body = two_images_body"
  then show \<open>fst (clean_lo_html L two_images_body [''picture2.png'', ''picture1.jpg''] slug) =
        ''<p><img src="img/'' @ slug @ ''/img002.png"> <img src="img/'' @ slug @ ''/img001.jpg"></p>''\<close>
    by (intro ex_fragment) simp_all
qed

theorem rename_map_deterministic_witness:
  \<open>distinct [''picture2.png'', ''picture1.jpg''] \<and> distinct [''picture1.jpg'', ''picture2.png''] \<and>
   set [''picture2.png'', ''picture1.jpg''] = set [''picture1.jpg'', ''picture2.png''] \<and>
   build_img_map [''picture2.png'', ''picture1.jpg''] = build_img_map [''picture1.jpg'', ''picture2.png''] \<and>
   build_img_map [''picture2.png'', ''picture1.jpg''] =
     map (\<lambda>(i, orig). (orig, ''img'' @ fmt_03d i @
                (if path_suffix orig = [] then ''.png'' else path_suffix orig)))
          (List.enumerate 1 (sort [''picture2.png'', ''picture1.jpg''])) \<and>
   unquote plain_lib ''picture1.jpg'' = ''picture1.jpg'' \<and>
   unquote plain_lib ''picture2.png'' = ''picture2.png'' \<and>
   tag_stripper plain_lib [''font''] two_images_body = two_images_body \<and>
   fst (clean_lo_html plain_lib two_images_body [''picture2.png'', ''picture1.jpg''] ''letter'') =
     ''<p><img src="img/letter/img002.png"> <img src="img/letter/img001.jpg"></p>''\<close>
proof -
  have h1: "distinct [''picture2.png'', ''picture1.jpg''] \<and> distinct [''picture1.jpg'', ''picture2.png''] \<and>
    set [''picture2.png'', ''picture1.jpg''] = set [''picture1.jpg'', ''picture2.png'']"
    by auto
  have h2: "unquote plain_lib ''picture1.jpg'' = ''picture1.jpg'' \<and>
    unquote plain_lib ''picture2.png'' = ''picture2.png'' \<and>
    tag_stripper plain_lib [''font''] two_images_body = two_images_body"
    by (simp add: plain_lib_def)
  note t = rename_map_deterministic [of "[''picture2.png'', ''picture1.jpg'']"
      "[''picture1.jpg'', ''picture2.png'']" plain_lib two_images_body "''letter''"]
  from t h1 have c1: "build_img_map [''picture2.png'', ''picture1.jpg''] =
      build_img_map [''picture1.jpg'', ''picture2.png'']"
    by blast
  from t h1 have c2: "build_img_map [''picture2.png'', ''picture1.jpg''] =
     map (\<lambda>(i, orig). (orig, ''img'' @ fmt_03d i @
                (if path_suffix orig = [] then ''.png'' else path_suffix orig)))
          (List.enumerate 1 (sort [''picture2.png'', ''picture1.jpg'']))"
    by blast
  from t h2 have c3: \<open>fst (clean_lo_html plain_lib two_images_body [''picture2.png'', ''picture1.jpg''] ''letter'') =
     ''<p><img src="img/'' @ ''letter'' @ ''/img002.png"> <img src="img/'' @ ''letter'' @ ''/img001.jpg"></p>''\<close>
    by blast
  from h1 h2 c1 c2 c3 show ?thesis by simp
qed

section \<open>The outcome of a conversion job\<close>

text \<open>
  C7. In the result of \<^verbatim>\<open>convert_one\<close> exactly one of three holds: the error is set, the
  skipped flag is true, or image files are present. A completed run with an HTML file
  and no file with an image suffix is skipped with no error; a non-zero exit code gives
  the error \<^verbatim>\<open>LO exit code <rc>: \<close> followed by the first 200 characters, at most, of the
  diagnostic output; a timeout and any other exception give an error.
\<close>

theorem convert_one_outcome:
  assumes "convert_one E args w = (w', r)"
    and "run = converter E (j_theme args) (j_source args)"
  shows "((error r \<noteq> None \<and> \<not> skipped r \<and> \<not> has_image_files r) \<or>
          (error r = None \<and> skipped r \<and> \<not> has_image_files r) \<or>
          (error r = None \<and> \<not> skipped r \<and> has_image_files r)) \<and>
         (\<forall>stderr. outcome run = Completed 0 stderr \<and>
            (\<exists>n \<in> set (map fst (produced run)). suffix ''.html'' n \<or> suffix ''.htm'' n) \<and>
            (\<forall>n \<in> set (map fst (produced run)). str_lower (name_suffix n) \<notin> set image_suffixes) \<longrightarrow>
            skipped r \<and> error r = None) \<and>
         (\<forall>rc stderr. outcome run = Completed rc stderr \<and> rc \<noteq> 0 \<longrightarrow>
            (\<exists>p. error r = Some (''LO exit code '' @ str_int rc @ '': '' @ p) \<and>
                 p = take 200 stderr \<and> prefix p stderr \<and> length p \<le> 200)) \<and>
         (outcome run = TimeoutExpired \<longrightarrow> error r = Some ''Timeout after 60s'') \<and>
         (\<forall>msg. outcome run = Raised msg \<longrightarrow> error r = Some msg)"
proof -
  define r0 where "r0 = \<lparr>theme = j_theme args, source = j_source args, reader = j_reader args,
             reader_slug = path_stem (j_reader args), images = [], error = None,
             skipped = False, body_html = None, image_files = None, num_images = None,
             tmpdir = None\<rparr>"
  define r1 where "r1 = (case outcome run of
         TimeoutExpired \<Rightarrow> r0\<lparr>error := Some ''Timeout after 60s''\<rparr>
       | Raised msg \<Rightarrow> r0\<lparr>error := Some msg\<rparr>
       | Completed rc err \<Rightarrow> inspect_output (lib E) (run_tmpdir run) (produced run) rc err r0)"
  from convert_one_unfold [OF assms r0_def]
  have fb: "finally_block (run_tmpdir run) r1 (write_tmp (run_tmpdir run) (produced run) w) = (w', r)"
    by (simp add: r1_def)
  note same = finally_block_result [OF fb]
  have hi: "has_image_files r = has_image_files r1"
    using same by (simp add: has_image_files_def)
  have r0: "error r0 = None" "\<not> skipped r0" "image_files r0 = None"
    by (simp_all add: r0_def)
  have one: "(error r1 \<noteq> None \<and> \<not> skipped r1 \<and> \<not> has_image_files r1) \<or>
          (error r1 = None \<and> skipped r1 \<and> \<not> has_image_files r1) \<or>
          (error r1 = None \<and> \<not> skipped r1 \<and> has_image_files r1)"
  proof (cases "outcome run")
    case TimeoutExpired
    then show ?thesis by (simp add: r1_def r0_def has_image_files_def)
  next
    case (Raised msg)
    then show ?thesis by (simp add: r1_def r0_def has_image_files_def)
  next
    case (Completed rc err)
    then have "r1 = inspect_output (lib E) (run_tmpdir run) (produced run) rc err r0"
      by (simp add: r1_def)
    from inspect_output_cases [OF r0 this] show ?thesis .
  qed
  have skip: "skipped r1 \<and> error r1 = None"
    if "outcome run = Completed 0 stderr"
      "\<exists>n \<in> set (map fst (produced run)). suffix ''.html'' n \<or> suffix ''.htm'' n"
      "\<forall>n \<in> set (map fst (produced run)). str_lower (name_suffix n) \<notin> set image_suffixes"
    for stderr
  proof -
    have h: "filter (suffix ''.html'') (map fst (produced run)) @
             filter (suffix ''.htm'') (map fst (produced run)) \<noteq> []"
      using that(2) by (auto simp: filter_empty_conv)
    have i: "filter (\<lambda>f. f \<noteq> x \<and> str_lower (name_suffix f) \<in> set image_suffixes)
                (sort (remdups (map fst (produced run)))) = []" for x
      using that(3) by (auto simp: filter_empty_conv)
    show ?thesis
      using that(1) h i r0
      by (auto simp: r1_def inspect_output_def Let_def split: list.splits)
  qed
  have fail: "error r1 = Some (''LO exit code '' @ str_int rc @ '': '' @ take 200 stderr)"
    if "outcome run = Completed rc stderr" "rc \<noteq> 0" for rc stderr
    using that by (simp add: r1_def inspect_output_def)
  have t: "outcome run = TimeoutExpired \<Longrightarrow> error r1 = Some ''Timeout after 60s''"
    by (simp add: r1_def)
  have e: "outcome run = Raised msg \<Longrightarrow> error r1 = Some msg" for msg
    by (simp add: r1_def)
  show ?thesis
    using one skip fail t e same hi by (auto simp: take_is_prefix)
qed


theorem convert_one_outcome_witness:
  "outcome (converter ex_env ''01-letters'' ''c.odt'') = Completed 77 (replicate 300 (CHR ''e'')) \<and>
   error (snd (convert_one ex_env (ex_job ''c.odt'') ex_world)) =
     Some (''LO exit code 77: '' @ replicate 200 (CHR ''e'')) \<and>
   outcome (converter ex_env ''01-letters'' ''b.rtf'') = Completed 0 [] \<and>
   skipped (snd (convert_one ex_env (ex_job ''b.rtf'') ex_world)) \<and>
   error (snd (convert_one ex_env (ex_job ''b.rtf'') ex_world)) = None \<and>
   \<not> has_image_files (snd (convert_one ex_env (ex_job ''b.rtf'') ex_world))"
proof -
  have c: "converter ex_env ''01-letters'' ''c.odt'' = converter ex_env (j_theme (ex_job ''c.odt'')) (j_source (ex_job ''c.odt''))"
    "converter ex_env ''01-letters'' ''b.rtf'' = converter ex_env (j_theme (ex_job ''b.rtf'')) (j_source (ex_job ''b.rtf''))"
    by (simp_all add: ex_job_def)
  have o1: "outcome (converter ex_env ''01-letters'' ''c.odt'') = Completed 77 (replicate 300 (CHR ''e''))"
    by (simp add: ex_env_def ex_converter_def)
  have o2: "outcome (converter ex_env ''01-letters'' ''b.rtf'') = Completed 0 []"
    by (simp add: ex_env_def ex_converter_def)
  have p2: "produced (converter ex_env ''01-letters'' ''b.rtf'') =
      [(''b.html'', ''<html><body><p>text</p></body></html>'')]"
    by (simp add: ex_env_def ex_converter_def)
  have h2: "(\<exists>n \<in> set (map fst (produced (converter ex_env ''01-letters'' ''b.rtf''))).
               suffix ''.html'' n \<or> suffix ''.htm'' n) \<and>
            (\<forall>n \<in> set (map fst (produced (converter ex_env ''01-letters'' ''b.rtf''))).
               str_lower (name_suffix n) \<notin> set image_suffixes)"
    unfolding p2 by code_simp
  note t1 = convert_one_outcome [OF surjective_pairing c(1)]
  note t2 = convert_one_outcome [OF surjective_pairing c(2)]
  from t1 o1 have "error (snd (convert_one ex_env (ex_job ''c.odt'') ex_world)) =
      Some (''LO exit code '' @ str_int 77 @ '': '' @ take 200 (replicate 300 (CHR ''e'')))"
    by (metis int_ops(2) numeral_eq_iff semiring_norm(85) zero_neq_numeral)
  moreover have "str_int 77 = ''77''" by code_simp
  ultimately have e1: "error (snd (convert_one ex_env (ex_job ''c.odt'') ex_world)) =
      Some (''LO exit code 77: '' @ replicate 200 (CHR ''e''))"
    by simp
  from t2 o2 h2 have e2: "skipped (snd (convert_one ex_env (ex_job ''b.rtf'') ex_world)) \<and>
      error (snd (convert_one ex_env (ex_job ''b.rtf'') ex_world)) = None"
    by blast
  with t2 have e3: "\<not> has_image_files (snd (convert_one ex_env (ex_job ''b.rtf'') ex_world))"
    by blast
  from o1 o2 e1 e2 e3 show ?thesis by simp
qed

section \<open>Image attributes\<close>

text \<open>
  C4, at an input where the code departs from it. The image \<^verbatim>\<open>picture1.jpg\<close> is in the
  rename map, so the claim has \<^verbatim>\<open>width\<close> stripped from the element. With \<^verbatim>\<open>width\<close> as the
  first attribute, the pattern of line 148, which asks for white space before the
  attribute's name, does not match it (the white space after \<^verbatim>\<open><img\<close> is not part of the
  group of line 154): the source is rewritten and the width stays. After another
  attribute the same width is stripped.
\<close>

theorem leading_width_not_stripped:
  \<open>clean_lo_html plain_lib ''<p><img width="10" src="picture1.jpg"></p>'' [''picture1.jpg''] ''letter'' =
     (''<p><img width="10" src="img/letter/img001.jpg"></p>'', [(''picture1.jpg'', ''img001.jpg'')]) \<and>
   clean_lo_html plain_lib ''<p><img src="picture1.jpg" width="10"></p>'' [''picture1.jpg''] ''letter'' =
     (''<p><img src="img/letter/img001.jpg"></p>'', [(''picture1.jpg'', ''img001.jpg'')])\<close>
  by code_simp

section \<open>Convertible extensions\<close>

text \<open>
  C9. The jobs created from the sorted mapping are its convertible entries, in order,
  and no entry that is not convertible raises (the only exception of the loop is the
  division by a worker count of zero, on a convertible entry). An entry is convertible
  if and only if the suffix of its source file name, in lower case, is one of
  \<^verbatim>\<open>.doc\<close>, \<^verbatim>\<open>.docx\<close>, \<^verbatim>\<open>.rtf\<close>, \<^verbatim>\<open>.odt\<close>; so a \<^verbatim>\<open>.pdf\<close> is never selected, whatever page
  refers to it. Every job of a run's work list comes from a convertible entry of the
  mapping.
\<close>

theorem convertible_extension_filtering:
  "(workers \<noteq> 0 \<or> \<not> (\<exists>item \<in> set items. convertible E item) \<longrightarrow>
      (\<exists>work. prepare_work E workers n i items = Inr work \<and>
         map (\<lambda>j. ((j_theme j, j_source j), j_reader j)) work = filter (convertible E) items)) \<and>
   (\<forall>th src rd. path_name src \<noteq> [] \<longrightarrow>
      (convertible E ((th, src), rd) \<longleftrightarrow>
         str_lower (path_suffix src) \<in> {''.doc'', ''.docx'', ''.rtf'', ''.odt''})) \<and>
   (\<forall>th src rd. path_name src \<noteq> [] \<and> str_lower (path_suffix src) = ''.pdf'' \<longrightarrow>
      \<not> convertible E ((th, src), rd)) \<and>
   (\<forall>a m w work. work_list E a m w = Inr work \<longrightarrow>
      (\<forall>j \<in> set work. ((j_theme j, j_source j), j_reader j) \<in> set m \<and>
         convertible E ((j_theme j, j_source j), j_reader j)))"
proof (intro conjI allI impI)
  assume "workers \<noteq> 0 \<or> \<not> (\<exists>item \<in> set items. convertible E item)"
  then show "\<exists>work. prepare_work E workers n i items = Inr work \<and>
         map (\<lambda>j. ((j_theme j, j_source j), j_reader j)) work = filter (convertible E) items"
    by (rule prepare_work_ok)
next
  fix th src rd
  assume "path_name src \<noteq> []"
  then show "convertible E ((th, src), rd) \<longleftrightarrow>
         str_lower (path_suffix src) \<in> {''.doc'', ''.docx'', ''.rtf'', ''.odt''}"
    by (simp add: convertible_def path_suffix_source_path convertible_suffixes_def)
next
  fix th src rd
  assume "path_name src \<noteq> [] \<and> str_lower (path_suffix src) = ''.pdf''"
  then show "\<not> convertible E ((th, src), rd)"
    by (simp add: convertible_def path_suffix_source_path convertible_suffixes_def)
next
  fix a m w work
  assume wl: "work_list E a m w = Inr work"
  from work_list_Inr [OF wl] obtain f where f: "set f \<subseteq> set m"
    "map (\<lambda>j. ((j_theme j, j_source j), j_reader j)) work = filter (convertible E) (sort_key fst f)"
    by blast
  show "\<forall>j \<in> set work. ((j_theme j, j_source j), j_reader j) \<in> set m \<and>
         convertible E ((j_theme j, j_source j), j_reader j)"
  proof
    fix j assume "j \<in> set work"
    then have "((j_theme j, j_source j), j_reader j) \<in> set (filter (convertible E) (sort_key fst f))"
      using f(2) by (metis (no_types, lifting) image_eqI set_map)
    with f(1) show "((j_theme j, j_source j), j_reader j) \<in> set m \<and>
         convertible E ((j_theme j, j_source j), j_reader j)"
      by auto
  qed
qed


theorem convertible_extension_filtering_witness:
  "(\<exists>work. prepare_work ex_env 4 3 0 three_documents = Inr work \<and>
      map (\<lambda>j. ((j_theme j, j_source j), j_reader j)) work =
        [((''01-letters'', ''a.doc''), ''/arc/01-letters/read/a.html''),
         ((''01-letters'', ''b.RTF''), ''/arc/01-letters/read/b.html'')]) \<and>
   path_name ''scan.pdf'' \<noteq> [] \<and> str_lower (path_suffix ''scan.pdf'') = ''.pdf'' \<and>
   \<not> convertible ex_env ((''01-letters'', ''scan.pdf''), ''/arc/01-letters/read/scan.html'')"
proof -
  note t = convertible_extension_filtering [of 4 three_documents ex_env 3 0]
  have f: "filter (convertible ex_env) three_documents =
        [((''01-letters'', ''a.doc''), ''/arc/01-letters/read/a.html''),
         ((''01-letters'', ''b.RTF''), ''/arc/01-letters/read/b.html'')]"
    by code_simp
  have h: "path_name ''scan.pdf'' \<noteq> [] \<and> str_lower (path_suffix ''scan.pdf'') = ''.pdf''"
    by code_simp
  from t have "\<exists>work. prepare_work ex_env 4 3 0 three_documents = Inr work \<and>
      map (\<lambda>j. ((j_theme j, j_source j), j_reader j)) work = filter (convertible ex_env) three_documents"
    by simp
  moreover from t h have "\<not> convertible ex_env ((''01-letters'', ''scan.pdf''), ''/arc/01-letters/read/scan.html'')"
    by blast
  ultimately show ?thesis using f h by simp
qed

section \<open>The updated counter\<close>

text \<open>
  C10. In the report of a finished run the total of the \<^verbatim>\<open>updated\<close> counters is the number
  of results with images (neither error nor skipped) of the conversion phase, and the
  counter of each theme is the number of those results of the theme. A step of the
  patch phase on a page where \<^verbatim>\<open>update_reader_page\<close> stops with a warning leaves every page
  as it was and still adds one to the counter. So the count can exceed the number of
  pages changed: the run over the page without a container reports one update and
  leaves the page unchanged.
\<close>

theorem updated_counts_every_success:
  "(main E a m w = (w', Finished rep) \<longrightarrow>
      (\<exists>work w1 all. work_list E a m w = Inr work \<and> convert_all E work w = (w1, all) \<and>
         ts_updated (totals rep) = length (filter with_images all) \<and>
         (\<forall>th. ts_updated (stats_of (themes rep) th) =
            length (filter (\<lambda>r. with_images r \<and> theme r = th) all)))) \<and>
   (pages w (reader r) = Some page \<and> body_html r = Some body \<and>
    (locate_region (read_text page) = NoOpenTag \<or> locate_region (read_text page) = NoCloseTag) \<longrightarrow>
      (\<exists>w1 stats'. patch_one False r stats w = (w1, Inr stats') \<and> pages w1 = pages w \<and>
         ts_updated (stats_of stats' (theme r)) = ts_updated (stats_of stats (theme r)) + 1)) \<and>
   (\<exists>w1. main ex_env plain_run ex_mapping (start_world no_container_page) = (w1, Finished aborted_report) \<and>
      ts_updated (totals aborted_report) = 1 \<and>
      pages w1 ''/arc/01-letters/read/a.html'' =
        pages (start_world no_container_page) ''/arc/01-letters/read/a.html'')"
proof (intro conjI impI)
  assume "main E a m w = (w', Finished rep)"
  from main_Finished [OF this] obtain work w1 all w2 stats where
    m: "work_list E a m w = Inr work" "convert_all E work w = (w1, all)"
      "patch_all (arg_dry_run a) (sort_key reader (filter with_images all)) [] w1 = (w2, Inr stats)"
      "rep = make_report E a stats all (filter with_images all)"
    by blast
  from patch_all_Inr [OF m(3)]
  have "ts_updated (totals rep) = length (filter with_images all)"
    and "\<And>th. ts_updated (stats_of (themes rep) th) =
            length (filter (\<lambda>r. with_images r \<and> theme r = th) all)"
    by (simp_all add: m(4) make_report_def sum_stats_def stats_of_def zero_stats_def
          length_filter_sort_key conj_commute)
  with m(1,2) show "\<exists>work w1 all. work_list E a m w = Inr work \<and> convert_all E work w = (w1, all) \<and>
         ts_updated (totals rep) = length (filter with_images all) \<and>
         (\<forall>th. ts_updated (stats_of (themes rep) th) =
            length (filter (\<lambda>r. with_images r \<and> theme r = th) all))"
    by blast
next
  assume a: "pages w (reader r) = Some page \<and> body_html r = Some body \<and>
    (locate_region (read_text page) = NoOpenTag \<or> locate_region (read_text page) = NoCloseTag)"
  then obtain line where u: "update_reader_page r False w = (warn line w, Inr (utf8_len page, utf8_len page))"
    by (auto simp: update_reader_page_def Let_def)
  obtain w1 out where p: "patch_one False r stats w = (w1, out)" by (cases "patch_one False r stats w")
  with u obtain stats' where out: "out = Inr stats'"
    by (auto simp: patch_one_def Let_def)
  from patch_one_Inr [OF p [unfolded out]] u
  have "w1 = cleanup r (warn line w)"
    and "ts_updated (stats_of stats' (theme r)) = ts_updated (stats_of stats (theme r)) + 1"
    by auto
  moreover have "pages (cleanup r (warn line w)) = pages w"
    by (simp add: cleanup_def rmtree_def warn_def split: option.splits list.splits)
  ultimately show "\<exists>w1 stats'. patch_one False r stats w = (w1, Inr stats') \<and> pages w1 = pages w \<and>
         ts_updated (stats_of stats' (theme r)) = ts_updated (stats_of stats (theme r)) + 1"
    using p out by auto
next
  have "main ex_env plain_run ex_mapping (start_world no_container_page) =
      (fst (main ex_env plain_run ex_mapping (start_world no_container_page)), Finished aborted_report)"
    using example_abort_run by (metis prod.collapse)
  moreover have "ts_updated (totals aborted_report) = 1"
    by (simp add: aborted_report_def)
  moreover have "pages (start_world no_container_page) ''/arc/01-letters/read/a.html'' = Some no_container_page"
    by (simp add: start_world_def)
  ultimately show "\<exists>w1. main ex_env plain_run ex_mapping (start_world no_container_page) = (w1, Finished aborted_report) \<and>
      ts_updated (totals aborted_report) = 1 \<and>
      pages w1 ''/arc/01-letters/read/a.html'' =
        pages (start_world no_container_page) ''/arc/01-letters/read/a.html''"
    using example_abort_run by metis
qed


theorem updated_counts_every_success_witness:
  "main ex_env plain_run ex_mapping (start_world no_container_page) =
     (fst (main ex_env plain_run ex_mapping (start_world no_container_page)), Finished aborted_report) \<and>
   (\<exists>work w1 all. work_list ex_env plain_run ex_mapping (start_world no_container_page) = Inr work \<and>
      convert_all ex_env work (start_world no_container_page) = (w1, all) \<and>
      ts_updated (totals aborted_report) = length (filter with_images all)) \<and>
   pages (start_world no_container_page) (reader ex_result) = Some no_container_page \<and>
   locate_region (read_text no_container_page) = NoOpenTag \<and>
   (\<exists>w1 stats'. patch_one False ex_result [] (start_world no_container_page) = (w1, Inr stats') \<and>
      pages w1 = pages (start_world no_container_page) \<and>
      ts_updated (stats_of stats' (theme ex_result)) = 1)"
proof -
  have h1: "main ex_env plain_run ex_mapping (start_world no_container_page) =
     (fst (main ex_env plain_run ex_mapping (start_world no_container_page)), Finished aborted_report)"
    using example_abort_run by (metis prod.collapse)
  have h2: "pages (start_world no_container_page) (reader ex_result) = Some no_container_page \<and>
      body_html ex_result = Some ''<p><img src=\"img/a/img001.png\"></p>''"
    by (simp add: start_world_def ex_result_def)
  have h3: "locate_region (read_text no_container_page) = NoOpenTag"
    by code_simp
  note t = updated_counts_every_success [of ex_env plain_run ex_mapping "start_world no_container_page"
      "fst (main ex_env plain_run ex_mapping (start_world no_container_page))" aborted_report
      ex_result no_container_page "''<p><img src=\"img/a/img001.png\"></p>''" "[]"]
  from t h1 have c1: "\<exists>work w1 all. work_list ex_env plain_run ex_mapping (start_world no_container_page) = Inr work \<and>
      convert_all ex_env work (start_world no_container_page) = (w1, all) \<and>
      ts_updated (totals aborted_report) = length (filter with_images all)"
    by blast
  from t h2 h3 have "\<exists>w1 stats'. patch_one False ex_result [] (start_world no_container_page) = (w1, Inr stats') \<and>
      pages w1 = pages (start_world no_container_page) \<and>
      ts_updated (stats_of stats' (theme ex_result)) = ts_updated (stats_of [] (theme ex_result)) + 1"
    by blast
  then have c2: "\<exists>w1 stats'. patch_one False ex_result [] (start_world no_container_page) = (w1, Inr stats') \<and>
      pages w1 = pages (start_world no_container_page) \<and>
      ts_updated (stats_of stats' (theme ex_result)) = 1"
    by (simp add: stats_of_def zero_stats_def)
  from h1 c1 h2 h3 c2 show ?thesis by blast
qed

section \<open>Dry runs\<close>




section \<open>The lifetime of a temporary directory\<close>




section \<open>A second run\<close>

text \<open>
  C2, amended. A patch that is not a dry run and finds its splice region writes the
  marker comment, on a line of its own, right after the container's opening tag, and
  the cleaned fragment after it. On a run without \<^verbatim>\<open>--force\<close> the pages that carry the
  marker are dropped from the mapping and counted, so no job of the work list is for
  such a page. After a first run that was not a dry run and did not end with an
  exception, a second run without \<^verbatim>\<open>--force\<close> changes no reader page and no image file:
  this holds for \<^verbatim>\<open>main\<close> taken from line 399 on with the mapping of the first run, and
  for the whole script, which builds the mapping again, on an archive where no two
  listed pages of a theme are entered under the same key. The converter is taken to
  produce the same output for a document in both runs.
\<close>

theorem marker_idempotency:
  "(update_reader_page r False w = (w', Inr (b, a)) \<and> pages w (reader r) = Some page \<and>
    locate_region (read_text page) = Region cs ci \<longrightarrow>
      suffix open_tag (take cs (read_text page)) \<and>
      (\<exists>body. body_html r = Some body \<and>
         pages w' (reader r) =
           Some (take cs (read_text page) @ nl @ lo_marker @ nl @ body @ nl @ drop ci (read_text page)))) \<and>
   (filter_processed wk mk = Inr (filtered, skipped_existing) \<longrightarrow>
      filtered = filter (\<lambda>(key, rd). \<exists>c. pages wk rd = Some c \<and> \<not> str_contains lo_marker c) mk \<and>
      skipped_existing =
        length (filter (\<lambda>(key, rd). \<exists>c. pages wk rd = Some c \<and> str_contains lo_marker c) mk)) \<and>
   (work_list E a0 m0 w0 = Inr work \<and> \<not> arg_force a0 \<longrightarrow>
      (\<forall>j \<in> set work. \<exists>c. pages w0 (j_reader j) = Some c \<and> \<not> str_contains lo_marker c)) \<and>
   (main E a1 m w1 = (w2, out1) \<and> \<not> arg_dry_run a1 \<and> (\<forall>e. out1 \<noteq> Crashed e) \<and>
    main E a2 m w2 = (w3, out2) \<and> \<not> arg_force a2 \<longrightarrow>
      pages w3 = pages w2 \<and> assets w3 = assets w2) \<and>
   (run_main E A t a1 v1 = (v2, res1) \<and> \<not> arg_dry_run a1 \<and> (\<forall>e. res1 \<noteq> Crashed e) \<and>
    run_main E A t a2 v2 = (v3, res2) \<and> \<not> arg_force a2 \<and> unique_links E A v1 \<longrightarrow>
      pages v3 = pages v2 \<and> assets v3 = assets v2)"
proof (intro conjI impI)
  assume h: "update_reader_page r False w = (w', Inr (b, a)) \<and> pages w (reader r) = Some page \<and>
    locate_region (read_text page) = Region cs ci"
  then have u: "update_reader_page r False w = (w', Inr (b, a))"
    and pg: "pages w (reader r) = Some page" and reg: "locate_region (read_text page) = Region cs ci"
    by simp_all
  from locate_region_Region [OF reg] obtain x y z where
    "read_text page = x @ open_tag @ y @ close_div @ z" "cs = length (x @ open_tag)"
    by blast
  then have "take cs (read_text page) = x @ open_tag" by simp
  then show "suffix open_tag (take cs (read_text page))" by (simp add: suffix_def)
  from u pg obtain body where bd: "body_html r = Some body"
    by (cases "body_html r") (auto simp: update_reader_page_def Let_def)
  obtain wc rc where ci: "copy_images (reader r) (reader_slug r)
      (case image_files r of None \<Rightarrow> [] | Some l \<Rightarrow> l) 0 w = (wc, rc)"
    by (cases "copy_images (reader r) (reader_slug r)
      (case image_files r of None \<Rightarrow> [] | Some l \<Rightarrow> l) 0 w")
  from update_reader_page_Region [OF pg bd reg ci] u
  have "w' = wc\<lparr>pages := (pages wc)(reader r \<mapsto> new_content (read_text page) body cs ci)\<rparr>"
    by (cases rc) auto
  then have "pages w' (reader r) = Some (new_content (read_text page) body cs ci)" by simp
  with bd show "\<exists>body. body_html r = Some body \<and>
         pages w' (reader r) =
           Some (take cs (read_text page) @ nl @ lo_marker @ nl @ body @ nl @ drop ci (read_text page))"
    by (simp add: new_content_def)
next
  assume f: "filter_processed wk mk = Inr (filtered, skipped_existing)"
  from filter_processed_Inr [OF f]
  show "filtered = filter (\<lambda>(key, rd). \<exists>c. pages wk rd = Some c \<and> \<not> str_contains lo_marker c) mk"
    and "skipped_existing =
        length (filter (\<lambda>(key, rd). \<exists>c. pages wk rd = Some c \<and> str_contains lo_marker c) mk)"
    by simp_all
next
  assume h: "work_list E a0 m0 w0 = Inr work \<and> \<not> arg_force a0"
  show "\<forall>j \<in> set work. \<exists>c. pages w0 (j_reader j) = Some c \<and> \<not> str_contains lo_marker c"
  proof
    fix j
    assume "j \<in> set work"
    from work_list_unmarked [OF h [THEN conjunct1] h [THEN conjunct2] this]
    show "\<exists>c. pages w0 (j_reader j) = Some c \<and> \<not> str_contains lo_marker c" by simp
  qed
next
  assume h: "main E a1 m w1 = (w2, out1) \<and> \<not> arg_dry_run a1 \<and> (\<forall>e. out1 \<noteq> Crashed e) \<and>
    main E a2 m w2 = (w3, out2) \<and> \<not> arg_force a2"
  then have nc: "\<And>e. out1 \<noteq> Crashed e" by simp
  from h have "pages w3 = pages w2 \<and> assets w3 = assets w2"
    by (intro second_run_frame [of E a1 m w1 w2 out1 a2 m w3 out2] nc) simp_all
  then show "pages w3 = pages w2" and "assets w3 = assets w2" by simp_all
next
  assume h: "run_main E A t a1 v1 = (v2, res1) \<and> \<not> arg_dry_run a1 \<and> (\<forall>e. res1 \<noteq> Crashed e) \<and>
    run_main E A t a2 v2 = (v3, res2) \<and> \<not> arg_force a2 \<and> unique_links E A v1"
  then have nc: "\<And>e. res1 \<noteq> Crashed e" by simp
  from h have "pages v3 = pages v2 \<and> assets v3 = assets v2"
    by (intro run_main_frame [of E A t a1 v1 v2 res1 a2 v3 res2] nc) simp_all
  then show "pages v3 = pages v2" and "assets v3 = assets v2" by simp_all
qed


theorem marker_idempotency_witness:
  \<open>locate_region (read_text ex_page) = Region 34 37 \<and>
   pages (fst (update_reader_page ex_result False ex_world)) ''/arc/01-letters/read/a.html'' =
     Some (''<body><div class="reader-content">'' @ nl @ lo_marker @ nl @
           ''<p><img src="img/a/img001.png"></p>'' @ nl @
           ''</div><a class="file-link-btn" href="../files/a.doc">a</a></body>'') \<and>
   filter_processed (fst (main ex_env plain_run ex_mapping (start_world ex_page))) ex_mapping =
     Inr ([], 1) \<and>
   length (filter (\<lambda>(key, rd). \<exists>c. pages (fst (main ex_env plain_run ex_mapping (start_world ex_page))) rd = Some c \<and>
                     str_contains lo_marker c) ex_mapping) = 1 \<and>
   work_list ex_env plain_run ex_mapping (start_world ex_page) = Inr [ex_job ''a.doc''] \<and>
   \<not> str_contains lo_marker ex_page \<and>
   snd (main ex_env plain_run ex_mapping
          (fst (main ex_env plain_run ex_mapping (start_world ex_page)))) = NothingToUpdate \<and>
   pages (fst (main ex_env plain_run ex_mapping
                 (fst (main ex_env plain_run ex_mapping (start_world ex_page))))) =
     pages (fst (main ex_env plain_run ex_mapping (start_world ex_page))) \<and>
   unique_links ex_env single_listing (start_world ex_page) \<and>
   pages (fst (run_main ex_env single_listing None plain_run
                 (fst (run_main ex_env single_listing None plain_run (start_world ex_page))))) =
     pages (fst (run_main ex_env single_listing None plain_run (start_world ex_page))) \<and>
   assets (fst (run_main ex_env single_listing None plain_run
                  (fst (run_main ex_env single_listing None plain_run (start_world ex_page))))) =
     assets (fst (run_main ex_env single_listing None plain_run (start_world ex_page)))\<close>
proof -
  let ?W1 = "start_world ex_page"
  let ?W2 = "fst (main ex_env plain_run ex_mapping ?W1)"
  let ?W3 = "fst (main ex_env plain_run ex_mapping ?W2)"
  let ?V2 = "fst (run_main ex_env single_listing None plain_run ?W1)"
  let ?V3 = "fst (run_main ex_env single_listing None plain_run ?V2)"
  let ?U = "fst (update_reader_page ex_result False ex_world)"
  have e1: "locate_region (read_text ex_page) = Region 34 37" by code_simp
  have e2: "snd (update_reader_page ex_result False ex_world) = Inr (102, 158)" by code_simp
  have p2: "update_reader_page ex_result False ex_world = (?U, Inr (102, 158))"
    using e2 by (metis prod.collapse)
  have e3: "pages ex_world (reader ex_result) = Some ex_page"
    by (simp add: ex_world_def ex_result_def)
  have e4: \<open>body_html ex_result = Some ''<p><img src="img/a/img001.png"></p>''\<close>
    \<open>reader ex_result = ''/arc/01-letters/read/a.html''\<close>
    by (simp_all add: ex_result_def)
  have e5: \<open>take 34 (read_text ex_page) = ''<body><div class="reader-content">''\<close>
    \<open>drop 37 (read_text ex_page) = ''</div><a class="file-link-btn" href="../files/a.doc">a</a></body>''\<close>
    by code_simp+
  have e6: "filter_processed ?W2 ex_mapping = Inr ([], 1)" by code_simp
  have e7: "work_list ex_env plain_run ex_mapping ?W1 = Inr [ex_job ''a.doc'']" by code_simp
  have e8: "\<not> arg_force plain_run" "\<not> arg_dry_run plain_run" by (simp_all add: plain_run_def)
  have e9: "case snd (main ex_env plain_run ex_mapping ?W1) of Crashed e \<Rightarrow> False | _ \<Rightarrow> True"
    by code_simp
  have n9: "\<forall>e. snd (main ex_env plain_run ex_mapping ?W1) \<noteq> Crashed e"
    using e9 by (cases "snd (main ex_env plain_run ex_mapping ?W1)") simp_all
  have e10: "snd (main ex_env plain_run ex_mapping ?W2) = NothingToUpdate" by code_simp
  have e11: "unique_links ex_env single_listing ?W1" by code_simp
  have e12: "case snd (run_main ex_env single_listing None plain_run ?W1) of
      Crashed e \<Rightarrow> False | _ \<Rightarrow> True"
    by code_simp
  have n12: "\<forall>e. snd (run_main ex_env single_listing None plain_run ?W1) \<noteq> Crashed e"
    using e12 by (cases "snd (run_main ex_env single_listing None plain_run ?W1)") simp_all
  have e13: "pages ?W1 (j_reader (ex_job ''a.doc'')) = Some ex_page"
    by (simp add: start_world_def ex_job_def)
  note t = marker_idempotency [of ex_result ex_world ?U 102 158 ex_page 34 37
      ?W2 ex_mapping "[]" 1 ex_env plain_run ex_mapping ?W1 "[ex_job ''a.doc'']"
      plain_run ex_mapping ?W1 ?W2 "snd (main ex_env plain_run ex_mapping ?W1)"
      plain_run ?W3 "snd (main ex_env plain_run ex_mapping ?W2)"
      single_listing None ?W1 ?V2 "snd (run_main ex_env single_listing None plain_run ?W1)"
      ?V3 "snd (run_main ex_env single_listing None plain_run ?V2)"]
  from t [THEN conjunct1, THEN mp, OF conjI [OF p2 conjI [OF e3 e1]], THEN conjunct2]
  have c1: \<open>pages ?U ''/arc/01-letters/read/a.html'' =
     Some (''<body><div class="reader-content">'' @ nl @ lo_marker @ nl @
           ''<p><img src="img/a/img001.png"></p>'' @ nl @
           ''</div><a class="file-link-btn" href="../files/a.doc">a</a></body>'')\<close>
    unfolding e4 e5 by simp
  from t [THEN conjunct2, THEN conjunct1, THEN mp, OF e6]
  have c2: "length (filter (\<lambda>(key, rd). \<exists>c. pages ?W2 rd = Some c \<and> str_contains lo_marker c) ex_mapping) = 1"
    by simp
  from t [THEN conjunct2, THEN conjunct2, THEN conjunct1]
  have "work_list ex_env plain_run ex_mapping ?W1 = Inr [ex_job ''a.doc''] \<and> \<not> arg_force plain_run \<longrightarrow>
      (\<forall>j \<in> set [ex_job ''a.doc'']. \<exists>c. pages ?W1 (j_reader j) = Some c \<and> \<not> str_contains lo_marker c)" .
  with e7 e8 have "\<exists>c. pages ?W1 (j_reader (ex_job ''a.doc'')) = Some c \<and> \<not> str_contains lo_marker c"
    by simp
  with e13 have c3: "\<not> str_contains lo_marker ex_page" by simp
  have "main ex_env plain_run ex_mapping ?W1 = (?W2, snd (main ex_env plain_run ex_mapping ?W1)) \<and>
      \<not> arg_dry_run plain_run \<and> (\<forall>e. snd (main ex_env plain_run ex_mapping ?W1) \<noteq> Crashed e) \<and>
      main ex_env plain_run ex_mapping ?W2 = (?W3, snd (main ex_env plain_run ex_mapping ?W2)) \<and>
      \<not> arg_force plain_run"
    using e8 n9 by simp
  from t [THEN conjunct2, THEN conjunct2, THEN conjunct2, THEN conjunct1, THEN mp, OF this]
  have c4: "pages ?W3 = pages ?W2" by simp
  have "run_main ex_env single_listing None plain_run ?W1 =
        (?V2, snd (run_main ex_env single_listing None plain_run ?W1)) \<and>
      \<not> arg_dry_run plain_run \<and>
      (\<forall>e. snd (run_main ex_env single_listing None plain_run ?W1) \<noteq> Crashed e) \<and>
      run_main ex_env single_listing None plain_run ?V2 =
        (?V3, snd (run_main ex_env single_listing None plain_run ?V2)) \<and>
      \<not> arg_force plain_run \<and> unique_links ex_env single_listing ?W1"
    using e8 n12 e11 by simp
  from t [THEN conjunct2, THEN conjunct2, THEN conjunct2, THEN conjunct2, THEN mp, OF this]
  have c5: "pages ?V3 = pages ?V2 \<and> assets ?V3 = assets ?V2" .
  from e1 c1 e6 c2 e7 c3 e10 c4 e11 c5 show ?thesis by (intro conjI) simp_all
qed

text \<open>
  C2 as stated fails on an archive with two pages for one source document. The mapping
  of the first run holds the later page \<^verbatim>\<open>b.html\<close> only; its download link lies inside the
  container before any closing tag, so the patch removes it. The second run finds the
  document under \<^verbatim>\<open>a.html\<close>, which the first run left as it was, and patches that page.
\<close>

theorem second_run_patches_twin:
  \<open>build_mapping ex_env twin_listing None twin_world =
     Inr [((''01-letters'', ''a.doc''), ''/arc/01-letters/read/b.html'')] \<and>
   \<not> unique_links ex_env twin_listing twin_world \<and>
   arg_force plain_run = False \<and> arg_dry_run plain_run = False \<and>
   snd (run_main ex_env twin_listing None plain_run twin_world) = Finished twin_report \<and>
   pages (fst (run_main ex_env twin_listing None plain_run twin_world))
     ''/arc/01-letters/read/a.html'' = Some ex_page \<and>
   pages (fst (run_main ex_env twin_listing None plain_run twin_world))
     ''/arc/01-letters/read/b.html'' =
       Some (''<div class="reader-content">'' @ nl @ lo_marker @ nl @
             ''<p><img src="img/b/img001.png"></p>'' @ nl @ ''</div>'') \<and>
   build_mapping ex_env twin_listing None
       (fst (run_main ex_env twin_listing None plain_run twin_world)) =
     Inr [((''01-letters'', ''a.doc''), ''/arc/01-letters/read/a.html'')] \<and>
   pages (fst (run_main ex_env twin_listing None plain_run
                 (fst (run_main ex_env twin_listing None plain_run twin_world))))
     ''/arc/01-letters/read/a.html'' =
       Some (''<body><div class="reader-content">'' @ nl @ lo_marker @ nl @
             ''<p><img src="img/a/img001.png"></p>'' @ nl @
             ''</div><a class="file-link-btn" href="../files/a.doc">a</a></body>'')\<close>
  by code_simp

end
